theory Spec2Isabelle
  imports Main "HOL-Library.Product_Lexorder"
begin

section \<open>Python values used by \<open>omicron/cli/process.py\<close>\<close>

text \<open>
  Exceptions that \<open>main\<close> can end with.  \<open>ProviderError\<close> stands for any exception
  raised inside an external collaborator (segment provider, frame finder, condor).
\<close>

datatype error =
    AttributeError
  | IndexError
  | IOError
  | ValueError
  | RuntimeError
  | KeyError
  | OSError
  | CalledProcessError
  | ProviderError

subsection \<open>String helpers (\<open>str.strip\<close>, \<open>str.rstrip\<close>, \<open>str.split\<close>)\<close>

definition newline :: char where
  "newline = CHR 0x0A"

definition strip_char :: "char \<Rightarrow> string \<Rightarrow> string" where
  \<comment> \<open>\<open>s.strip(c)\<close> for a one-character argument\<close>
  "strip_char c s = rev (dropWhile (\<lambda>x. x = c) (rev (dropWhile (\<lambda>x. x = c) s)))"

definition rstrip_char :: "char \<Rightarrow> string \<Rightarrow> string" where
  \<comment> \<open>\<open>s.rstrip(c)\<close>\<close>
  "rstrip_char c s = rev (dropWhile (\<lambda>x. x = c) (rev s))"

fun split_char :: "char \<Rightarrow> string \<Rightarrow> string list" where
  \<comment> \<open>\<open>s.split(c)\<close>: always at least one field\<close>
  "split_char c [] = [[]]"
| "split_char c (x # xs) =
     (if x = c then [] # split_char c xs
      else (case split_char c xs of
              w # ws \<Rightarrow> (x # w) # ws
            | [] \<Rightarrow> [[x]]))"

fun split_once :: "char \<Rightarrow> string \<Rightarrow> string list" where
  \<comment> \<open>\<open>s.split(c, 1)\<close>: split at the first occurrence only\<close>
  "split_once c [] = [[]]"
| "split_once c (x # xs) =
     (if x = c then [[], xs]
      else (case split_once c xs of
              w # ws \<Rightarrow> (x # w) # ws
            | [] \<Rightarrow> [[x]]))"

definition zip_star :: "'a list list \<Rightarrow> 'a list list" where
  \<comment> \<open>\<open>zip(*rows)\<close>: the columns of \<open>rows\<close>, as many as the shortest row has entries\<close>
  "zip_star rows =
     (if rows = [] then []
      else map (\<lambda>k. map (\<lambda>r. r ! k) rows) [0..<min_list (map length rows)])"

section \<open>Channel list parsing and exclusion (\<open>main\<close>, lines 550--563)\<close>

text \<open>
  Python distinguishes the mutable \<open>list\<close> that \<open>str.split\<close> returns from the
  \<open>tuple\<close>s that \<open>zip\<close> yields; only the former has \<open>pop\<close>.
\<close>

datatype pyseq = PyList "string list" | PyTuple "string list"

fun items :: "pyseq \<Rightarrow> string list" where
  "items (PyList xs) = xs"
| "items (PyTuple xs) = xs"

definition channel_lines :: "string \<Rightarrow> string list" where
  \<comment> \<open>\<open>cp.get(group, 'channels').strip('\n').rstrip('\n').split('\n')\<close>\<close>
  "channel_lines raw = split_char newline (rstrip_char newline (strip_char newline raw))"

definition parse_channels :: "string \<Rightarrow> pyseq \<times> string list" where
  \<comment> \<open>the \<open>try: channels, crates = zip(*[c.split(' ', 1) for c in channels])\<close> block;
      unpacking anything but exactly two columns raises \<open>ValueError\<close>, which leaves
      \<open>channels\<close> as the list of lines and sets \<open>crates = []\<close>\<close>
  "parse_channels raw =
     (let channels = channel_lines raw in
      case zip_star (map (split_once (CHR '' '')) channels) of
        [names, rates] \<Rightarrow> (PyTuple names, remdups rates)
      | _ \<Rightarrow> (PyList channels, []))"

definition pop :: "'a list \<Rightarrow> nat \<Rightarrow> 'a list" where
  \<comment> \<open>the list left by \<open>xs.pop(i)\<close> for an index in range\<close>
  "pop xs i = take i xs @ drop (Suc i) xs"

fun remove_excluded :: "nat \<Rightarrow> pyseq \<Rightarrow> string list \<Rightarrow> error + pyseq" where
  \<comment> \<open>\<open>for i in range(len(channels) - 1, -1, -1)\<close>; the first argument counts the
      indices still to visit, so the index visited next is one below it\<close>
  "remove_excluded 0 channels exclude_channel = Inr channels"
| "remove_excluded (Suc i) channels exclude_channel =
     (if i < length (items channels) then
        (let c = items channels ! i in
         if c \<in> set exclude_channel then
           (case channels of
              PyTuple _ \<Rightarrow> Inl AttributeError
            | PyList xs \<Rightarrow> remove_excluded i (PyList (pop xs i)) exclude_channel)
         else remove_excluded i channels exclude_channel)
      else Inl IndexError)"

definition filter_channels :: "string \<Rightarrow> string list \<Rightarrow> error + pyseq" where
  \<comment> \<open>lines 550--562: parse, then drop the excluded channels\<close>
  "filter_channels raw exclude_channel =
     (let channels = fst (parse_channels raw) in
      remove_excluded (length (items channels)) channels exclude_channel)"

definition two_column :: "string \<Rightarrow> bool" where
  \<comment> \<open>every line of the option has the form \<open>channel samplerate\<close>\<close>
  "two_column raw = list_all (\<lambda>l. CHR '' '' \<in> set l) (channel_lines raw)"

definition channel_names :: "string \<Rightarrow> string list" where
  \<comment> \<open>first column of the two-column format\<close>
  "channel_names raw = map (\<lambda>l. hd (split_once (CHR '' '') l)) (channel_lines raw)"

section \<open>Segments (\<open>ligo.segments\<close>, as used through \<open>gwpy.segments\<close>)\<close>

text \<open>
  A segment is a pair of GPS times, a segment list a Python list of segments.  The
  operations below are those of the pure-Python \<open>ligo.segments\<close> classes that
  \<open>main\<close> calls.  Times are modelled as unbounded integers.
\<close>

type_synonym segment = "int \<times> int"
type_synonym segmentlist = "segment list"

definition Segment :: "int \<Rightarrow> int \<Rightarrow> segment" where
  \<comment> \<open>\<open>segment.__new__\<close> orders its two arguments\<close>
  "Segment a b = (if a \<le> b then (a, b) else (b, a))"

definition seg_abs :: "segment \<Rightarrow> int" where
  \<comment> \<open>\<open>abs(seg)\<close>\<close>
  "seg_abs s = snd s - fst s"

fun coalesce_from :: "int \<Rightarrow> int \<Rightarrow> segmentlist \<Rightarrow> segmentlist" where
  \<comment> \<open>the two nested \<open>while\<close> loops of \<open>segmentlist.coalesce\<close> on the sorted list:
      \<open>lo, hi\<close> is the segment being grown, zero-length results are not stored\<close>
  "coalesce_from lo hi [] = (if lo \<noteq> hi then [Segment lo hi] else [])"
| "coalesce_from lo hi (s # rest) =
     (if hi \<ge> fst s then coalesce_from lo (max hi (snd s)) rest
      else (if lo \<noteq> hi then [Segment lo hi] else []) @ coalesce_from (fst s) (snd s) rest)"

definition coalesce :: "segmentlist \<Rightarrow> segmentlist" where
  \<comment> \<open>\<open>segmentlist.coalesce\<close>: sort, then merge overlapping and touching segments\<close>
  "coalesce xs =
     (case sort xs of
        [] \<Rightarrow> []
      | s # rest \<Rightarrow> coalesce_from (fst s) (snd s) rest)"

text \<open>
  Intersection is \<open>__and__\<close>, which copies the longer operand and applies \<open>__iand__\<close>,
  that is \<open>self.__isub__(~other)\<close>.  The inverse of a list of finite segments has
  \<open>-infinity\<close> only as a lower and \<open>infinity\<close> only as an upper bound; its elements are
  pairs of optional bounds, \<open>None\<close> being the infinite bound of that side.
\<close>

type_synonym bounds = "int option \<times> int option"

fun invert_from :: "int \<Rightarrow> segmentlist \<Rightarrow> bounds list" where
  \<comment> \<open>the loop of \<open>__invert__\<close> and its last \<open>append\<close>, from the end \<open>last\<close> of the
      segment before; \<open>segment(last, self[i][0])\<close> orders its arguments\<close>
  "invert_from lst [] = [(Some lst, None)]"
| "invert_from lst (s # rest) =
     (Some (fst (Segment lst (fst s))), Some (snd (Segment lst (fst s))))
       # invert_from (snd s) rest"

fun invert :: "segmentlist \<Rightarrow> bounds list" where
  \<comment> \<open>\<open>segmentlist.__invert__\<close>, written \<open>~other\<close>\<close>
  "invert [] = [(None, None)]"
| "invert (s # rest) = (None, Some (fst s)) # invert_from (snd s) rest"

definition upper_le :: "int option \<Rightarrow> int \<Rightarrow> bool" where
  \<comment> \<open>\<open>otherseg[1] <= x\<close>\<close>
  "upper_le hi x = (case hi of None \<Rightarrow> False | Some b \<Rightarrow> b \<le> x)"

definition le_lower :: "int \<Rightarrow> int option \<Rightarrow> bool" where
  \<comment> \<open>\<open>x <= otherseg[0]\<close>\<close>
  "le_lower x lo = (case lo of None \<Rightarrow> False | Some a \<Rightarrow> x \<le> a)"

function isub :: "segmentlist \<Rightarrow> bounds list \<Rightarrow> segmentlist" where
  \<comment> \<open>\<open>segmentlist.__isub__\<close>: the first argument is \<open>self[i:]\<close>, the second \<open>other[j:]\<close>
      with \<open>otherseg\<close> at its head; the result is what the loop leaves of \<open>self[i:]\<close>.
      The two places that test \<open>otherseg[1] >= seg[1]\<close> delete \<open>self[i]\<close> or replace it
      by \<open>segment(otherseg[1], seg[1])\<close>; \<open>otherseg[0] <= seg[0]\<close> decides whether
      \<open>segment(seg[0], otherseg[0])\<close> is inserted before.\<close>
  "isub [] other = []"
| "isub (seg # self) [] = seg # self"
| "isub (seg # self) (otherseg # other) =
     (if upper_le (snd otherseg) (fst seg) then
        (case other of
           [] \<Rightarrow> seg # self
         | _ # _ \<Rightarrow> isub (seg # self) other)
      else if le_lower (snd seg) (fst otherseg) then
        seg # isub self (otherseg # other)
      else
        (case fst otherseg of
           None \<Rightarrow>
             (case snd otherseg of
                None \<Rightarrow> isub self (otherseg # other)
              | Some b \<Rightarrow>
                  if b \<ge> snd seg then isub self (otherseg # other)
                  else isub (Segment b (snd seg) # self) (otherseg # other))
         | Some a \<Rightarrow>
             if a \<le> fst seg then
               (case snd otherseg of
                  None \<Rightarrow> isub self (otherseg # other)
                | Some b \<Rightarrow>
                    if b \<ge> snd seg then isub self (otherseg # other)
                    else isub (Segment b (snd seg) # self) (otherseg # other))
             else
               Segment (fst seg) a #
               (case snd otherseg of
                  None \<Rightarrow> isub self (otherseg # other)
                | Some b \<Rightarrow>
                    if b \<ge> snd seg then isub self (otherseg # other)
                    else isub (Segment b (snd seg) # self) (otherseg # other))))"
  by pat_completeness auto
termination
  by (relation "measure (\<lambda>(self, other).
        2 * (length self + length other) +
        (case self of
           [] \<Rightarrow> 0
         | seg # _ \<Rightarrow>
             (case other of
                [] \<Rightarrow> 0
              | otherseg # _ \<Rightarrow> if upper_le (snd otherseg) (fst seg) then 0 else 1)))")
     (auto simp: upper_le_def Segment_def split: list.splits option.splits)

declare isub.simps(3) [simp del]

definition iand :: "segmentlist \<Rightarrow> segmentlist \<Rightarrow> segmentlist" where
  \<comment> \<open>\<open>segmentlist.__iand__\<close> on a copy of \<open>self\<close>\<close>
  "iand self other = isub self (invert other)"

definition seg_and :: "segmentlist \<Rightarrow> segmentlist \<Rightarrow> segmentlist" where
  \<comment> \<open>\<open>a & b\<close>, \<open>segmentlist.__and__\<close>\<close>
  "seg_and xs ys = (if length xs \<ge> length ys then iand xs ys else iand ys xs)"

definition contract :: "int \<Rightarrow> segmentlist \<Rightarrow> segmentlist" where
  \<comment> \<open>\<open>segmentlist.contract(x)\<close>: \<open>segment.contract\<close> on every element (which builds
      \<open>segment(a + x, b - x)\<close>), then \<open>coalesce\<close>\<close>
  "contract x xs = coalesce (map (\<lambda>s. Segment (fst s + x) (snd s - x)) xs)"

fun extent :: "segmentlist \<Rightarrow> error + segment" where
  \<comment> \<open>\<open>segmentlist.extent\<close>: raises \<open>ValueError\<close> on the empty list\<close>
  "extent [] = Inl ValueError"
| "extent (s # xs) =
     Inr (Segment (fold min (map fst xs) (fst s)) (fold max (map snd xs) (snd s)))"

definition coalesced :: "segmentlist \<Rightarrow> bool" where
  \<comment> \<open>the invariant of a coalesced list: non-empty segments in ascending order that
      neither overlap nor touch\<close>
  "coalesced xs \<longleftrightarrow>
     list_all (\<lambda>s. fst s < snd s) xs \<and> sorted_wrt (\<lambda>s t. snd s < fst t) xs"

section \<open>Configuration, command line and external collaborators\<close>

record config =
  chunkdur :: int  \<comment> \<open>\<open>chunk-duration\<close>\<close>
  segdur :: int    \<comment> \<open>\<open>segment-duration\<close>\<close>
  overlap :: int   \<comment> \<open>\<open>overlap-duration\<close>\<close>

definition padding :: "config \<Rightarrow> int" where
  \<comment> \<open>\<open>int(overlap / 2)\<close>: true division, then truncation towards zero\<close>
  "padding cfg =
     (if 0 \<le> overlap cfg then overlap cfg div 2 else - ((- overlap cfg) div 2))"

record args =
  gps :: "(int \<times> int) option"  \<comment> \<open>\<open>--gps\<close>; \<open>None\<close> is online mode\<close>
  use_dev_shm :: bool
  reattach :: bool    \<comment> \<open>after the lock-file check of lines 692--702\<close>
  rescue :: bool
  no_submit :: bool
  submit_rescue_dag :: int
  max_concurrent :: int
  skip_root_merge :: bool
  skip_hdf5_merge :: bool
  skip_ligolw_add :: bool
  skip_gzip :: bool
  archive :: bool

definition online :: "args \<Rightarrow> bool" where
  "online a = (gps a = None)"

definition newdag :: "args \<Rightarrow> bool" where
  "newdag a = (\<not> rescue a \<and> \<not> reattach a)"

text \<open>
  What the external collaborators answer during one run.  Each field is the value that
  the call named in its comment returns in this run; \<open>None\<close> is the call raising.
\<close>

record env =
  latest_data_gps :: int
    \<comment> \<open>\<open>data.get_latest_data_gps(ifo, frametype)\<close>\<close>
  state_segs :: "segmentlist option"
    \<comment> \<open>the state or frame segments for \<open>[datastart, dataend)\<close> (lines 781--823)\<close>
  frame_cache_segs :: "segmentlist option"
    \<comment> \<open>\<open>segments.cache_segments(cache)\<close> of the frames found; \<open>None\<close> for an empty
        cache, on which it raises \<open>TypeError\<close>\<close>
  programs_found :: bool
    \<comment> \<open>every entry of \<open>prog_path\<close> was found (lines 1048--1054)\<close>
  submit_dag :: "nat \<Rightarrow> int option"
    \<comment> \<open>\<open>condor.submit_dag\<close> in iteration \<open>i\<close>: the cluster id\<close>
  find_job :: "nat \<Rightarrow> int option"
    \<comment> \<open>\<open>condor.find_job(...)['ClusterId']\<close> in iteration \<open>i\<close>\<close>
  condor_watch_q :: "nat \<Rightarrow> int option"
    \<comment> \<open>the exit status of \<open>condor_watch_q\<close> in iteration \<open>i\<close>, on which \<open>check_call\<close>
        raises unless it is zero; \<open>None\<close> when the program is not on the path\<close>
  dag_status :: "nat \<Rightarrow> int option"
    \<comment> \<open>\<open>stat["exitcode"]\<close> after iteration \<open>i\<close>; \<open>None\<close> when the key is absent\<close>
  find_rescue_dag :: "nat \<Rightarrow> string option"
    \<comment> \<open>\<open>condor.find_rescue_dag(str(dagfile))\<close> after the failure of iteration \<open>i\<close>\<close>
  frame_tempfiles :: "string list"
    \<comment> \<open>the entries of the frame cache that lie under \<open>cachedir\<close> (line 890)\<close>
  clean_tempfiles_ok :: bool
    \<comment> \<open>\<open>clean_tempfiles\<close> removes these entries without raising\<close>

section \<open>Removing empty run directories (\<open>clean_dirs\<close>, \<open>remove_empty_dir\<close>, lines 117--161)\<close>

text \<open>
  What \<open>Path.glob('*')\<close> lists in a directory: regular files and sub-directories with
  their own listing.  \<open>rmdir\<close> raises \<open>OSError\<close> unless the directory is empty.  Each
  function returns what the call returns or raises, together with what is left on disk.
\<close>

datatype entry = File | Dir "entry list"

fun remove_empty_dir :: "entry \<Rightarrow> (error + bool) \<times> entry list"
and remove_listed :: "entry list \<Rightarrow> (error + bool) \<times> entry list" where
  \<comment> \<open>\<open>remove_empty_dir(dir_path)\<close>: \<open>ret\<close>, and what is left at \<open>dir_path\<close> (nothing once it
      is removed); \<open>remove_listed\<close> is its loop \<open>for file in flist\<close>, which gives the
      final \<open>ret\<close> and what is left of the listing\<close>
  "remove_empty_dir File = (Inr False, [File])"
| "remove_empty_dir (Dir flist) =
     (if length flist = 0 then (Inr True, [])
      else
        (case remove_listed flist of
           (Inl e, left) \<Rightarrow> (Inl e, [Dir left])
         | (Inr ret, left) \<Rightarrow>
             if ret then (if left = [] then (Inr True, []) else (Inl OSError, [Dir left]))
             else (Inr False, [Dir left])))"
| "remove_listed [] = (Inr True, [])"
| "remove_listed (File # rest) =
     (case remove_listed rest of (r, left) \<Rightarrow> (r, File # left))"
| "remove_listed (Dir fl # rest) =
     (case remove_empty_dir (Dir fl) of
        (Inl e, l) \<Rightarrow> (Inl e, l @ rest)
      | (Inr ret, l) \<Rightarrow>
          if \<not> ret then (Inr False, l @ rest)
          else (case remove_listed rest of (r, left) \<Rightarrow> (r, l @ left)))"

fun clean_listed :: "entry list \<Rightarrow> (error + bool) \<times> entry list" where
  \<comment> \<open>the loop \<open>for file in flist\<close> of \<open>clean_dirs\<close>: \<open>can_delete\<close> and what is left\<close>
  "clean_listed [] = (Inr True, [])"
| "clean_listed (File # rest) =
     (case clean_listed rest of
        (Inl e, left) \<Rightarrow> (Inl e, File # left)
      | (Inr can_delete, left) \<Rightarrow> (Inr False, File # left))"
| "clean_listed (Dir fl # rest) =
     (case remove_empty_dir (Dir fl) of
        (Inl e, l) \<Rightarrow> (Inl e, l @ rest)
      | (Inr ret, l) \<Rightarrow>
          (case clean_listed rest of
             (Inl e, left) \<Rightarrow> (Inl e, l @ left)
           | (Inr can_delete, left) \<Rightarrow> (Inr (ret \<and> can_delete), l @ left)))"

fun clean_dirs :: "entry list \<Rightarrow> error option \<times> entry list" where
  \<comment> \<open>\<open>clean_dirs(dir_list)\<close>: the exception it ends with, if any, and the directories of
      \<open>dir_list\<close> that are left.  A path that is no directory lists nothing, and its
      \<open>rmdir\<close> raises.\<close>
  "clean_dirs [] = (None, [])"
| "clean_dirs (File # rest) = (Some OSError, File # rest)"
| "clean_dirs (Dir flist # rest) =
     (if length flist = 0 then clean_dirs rest
      else
        (case clean_listed flist of
           (Inl e, left) \<Rightarrow> (Some e, Dir left # rest)
         | (Inr can_delete, left) \<Rightarrow>
             if can_delete then
               (if left = [] then clean_dirs rest else (Some OSError, Dir left # rest))
             else (case clean_dirs rest of (e, dirs) \<Rightarrow> (e, Dir left # dirs))))"

section \<open>The run: state, outcomes and the watermark file\<close>

text \<open>
  The part of the world that \<open>main\<close> changes and that the properties below speak
  about: the contents of \<open>segments.txt\<close> (\<open>None\<close> while the file does not exist), how
  often a DAG was handed to condor, how often a running DAG was looked up, and the
  directories of \<open>run_dir_list\<close> with what they hold when \<open>clean_dirs\<close> looks at them.
\<close>

record run_state =
  segfile :: "segmentlist option"
  submitted :: nat
  reattached :: nat
  run_dirs :: "entry list"

text \<open>
  The four places where \<open>main\<close> leaves through \<open>sys.exit\<close>, named after what is
  logged there.
\<close>

datatype exit_site =
    TooShort     \<comment> \<open>line 771, "Segment is too short ..., please try again later"\<close>
  | CaughtUp     \<comment> \<open>line 951, "No analysable segments found, but up-to-date data are available"\<close>
  | RetryLater   \<comment> \<open>line 957, "No analysable segments found, please try again later"\<close>
  | NoSubmit     \<comment> \<open>line 1325, \<open>--no-submit\<close>\<close>

datatype outcome =
    Raised error
  | CleanFailed exit_site error
      \<comment> \<open>the exception that \<open>clean_dirs\<close> or \<open>clean_tempfiles\<close> raised on the way to that exit\<close>
  | DagFailed int   \<comment> \<open>\<open>RuntimeError("DAG has failed to complete %d times" % n)\<close>\<close>
  | Unbound         \<comment> \<open>\<open>dagid\<close> read before assignment after a loop of zero iterations\<close>
  | Exited exit_site int
  | Completed

definition clean_exit ::
  "exit_site \<Rightarrow> int \<Rightarrow> string list \<Rightarrow> env \<Rightarrow> run_state \<Rightarrow> outcome \<times> run_state" where
  \<comment> \<open>\<open>clean_dirs(run_dir_list)\<close> followed by \<open>clean_exit(exitcode, tempfiles)\<close>, which
      calls \<open>clean_tempfiles\<close> unless \<open>tempfiles\<close> is empty and then \<open>sys.exit(exitcode)\<close>\<close>
  "clean_exit site exitcode tempfiles ev st =
     (case clean_dirs (run_dirs st) of
        (Some e, dirs) \<Rightarrow> (CleanFailed site e, st\<lparr>run_dirs := dirs\<rparr>)
      | (None, dirs) \<Rightarrow>
          if tempfiles \<noteq> [] \<and> \<not> clean_tempfiles_ok ev
          then (CleanFailed site OSError, st\<lparr>run_dirs := dirs\<rparr>)
          else (Exited site exitcode, st\<lparr>run_dirs := dirs\<rparr>))"

fun exit_site_of :: "outcome \<Rightarrow> exit_site option" where
  \<comment> \<open>the exit that the run took or was on its way to\<close>
  "exit_site_of (Exited site exitcode) = Some site"
| "exit_site_of (CleanFailed site e) = Some site"
| "exit_site_of _ = None"

definition write_segments :: "segmentlist \<Rightarrow> run_state \<Rightarrow> run_state" where
  \<comment> \<open>Modelled from the spec: \<open>omicron.segments.write_segments(segmentlist, segfile)\<close>
      is not among the sources.  The spec has the watermark file "overwritten", holding
      the segments in "a plain line-oriented" format; the model replaces the contents
      by the list written.\<close>
  "write_segments segmentlist st = st\<lparr>segfile := Some segmentlist\<rparr>"

definition get_last_run_segment :: "run_state \<Rightarrow> error + segment" where
  \<comment> \<open>Modelled from the spec: \<open>omicron.segments.get_last_run_segment(segfile)\<close> is not
      among the sources.  The spec has the watermark read back as "the most recently
      completed processing span"; the caller expects \<open>IOError\<close> when there is no record.
      The model returns the last segment stored.\<close>
  "get_last_run_segment st =
     (case segfile st of
        None \<Rightarrow> Inl IOError
      | Some [] \<Rightarrow> Inl IndexError
      | Some (s # ss) \<Rightarrow> Inr (last (s # ss)))"

section \<open>Finding the run segment (\<open>main\<close>, lines 716--777)\<close>

definition find_run_segment :: "args \<Rightarrow> config \<Rightarrow> env \<Rightarrow> run_state \<Rightarrow> error + (int \<times> int)" where
  \<comment> \<open>lines 723--745: \<open>start, end\<close>\<close>
  "find_run_segment a cfg ev st =
     (if newdag a \<and> online a then
        (let end = latest_data_gps ev - padding cfg in
         case get_last_run_segment st of
           Inr seg \<Rightarrow> Inr (snd seg, end)
         | Inl IOError \<Rightarrow>
             if use_dev_shm a then Inr (end - chunkdur cfg + padding cfg, end)
             else Inr (end - 4000, end)
         | Inl e \<Rightarrow> Inl e)
      else if online a then get_last_run_segment st
      else (case gps a of Some (start, end) \<Rightarrow> Inr (start, end) | None \<Rightarrow> Inl ValueError))"

definition datastart_of :: "config \<Rightarrow> int \<times> int \<Rightarrow> int" where
  "datastart_of cfg run = fst run - padding cfg"

definition dataend_of :: "config \<Rightarrow> int \<times> int \<Rightarrow> int" where
  "dataend_of cfg run = snd run + padding cfg"

definition dataduration_of :: "config \<Rightarrow> int \<times> int \<Rightarrow> int" where
  "dataduration_of cfg run = dataend_of cfg run - datastart_of cfg run"

definition validate_span ::
  "args \<Rightarrow> config \<Rightarrow> env \<Rightarrow> int \<times> int \<Rightarrow> run_state \<Rightarrow> (outcome \<times> run_state) option" where
  \<comment> \<open>lines 763--777, where \<open>tempfiles\<close> is still empty; \<open>None\<close> lets the run go on\<close>
  "validate_span a cfg ev run st =
     (let minduration = 1 * chunkdur cfg in
      if dataduration_of cfg run < minduration \<and> online a then
        Some (clean_exit TooShort 0 [] ev st)
      else if dataduration_of cfg run < minduration then
        Some (Raised ValueError, st)
      else None)"

section \<open>Truncation at the limit of available data (\<open>main\<close>, lines 841--876)\<close>

partial_function (option) truncate_loop :: "config \<Rightarrow> int \<Rightarrow> int \<Rightarrow> int \<Rightarrow> int option" where
  \<comment> \<open>\<open>while t + chunkdur <= e: t += step; step = chunkdur - overlap\<close>; \<open>None\<close> is the
      loop running forever\<close>
  "truncate_loop cfg e t step =
     (if t + chunkdur cfg \<le> e
      then truncate_loop cfg e (t + step) (chunkdur cfg - overlap cfg)
      else Some t)"

declare truncate_loop.simps [code]

definition truncate_segs :: "args \<Rightarrow> config \<Rightarrow> segmentlist \<Rightarrow> int \<Rightarrow> (segmentlist \<times> int) option" where
  \<comment> \<open>lines 841--876: the new \<open>segs\<close> and \<open>dataend\<close>\<close>
  "truncate_segs a cfg segs dataend =
     (case segs of
        [] \<Rightarrow> Some (segs, dataend)
      | _ # _ \<Rightarrow>
          (let lastseg = last segs;
               truncate = (online a \<and> newdag a \<and> snd lastseg = dataend) in
           if truncate \<and> seg_abs lastseg < chunkdur cfg * 2 then
             Some (butlast segs, fst lastseg)
           else if truncate then
             (case truncate_loop cfg (snd lastseg - (chunkdur cfg + padding cfg))
                     (fst lastseg) (chunkdur cfg) of
                None \<Rightarrow> None
              | Some t \<Rightarrow>
                  Some (butlast segs @ [Segment (fst lastseg) t],
                        snd (Segment (fst lastseg) t)))
           else Some (segs, dataend)))"

definition stepped :: "config \<Rightarrow> nat \<Rightarrow> int" where
  \<comment> \<open>the length of \<open>k\<close> stepped chunks: the first takes \<open>chunkdur\<close>, every further one
      \<open>chunkdur - overlap\<close>; these are the values \<open>t - lastseg[0]\<close> takes in the loop\<close>
  "stepped cfg k =
     (if k = 0 then 0 else chunkdur cfg + int (k - 1) * (chunkdur cfg - overlap cfg))"

section \<open>Available data and analysable segments (\<open>main\<close>, lines 879--962)\<close>

definition available_data :: "env \<Rightarrow> int \<Rightarrow> int \<Rightarrow> segmentlist \<times> bool" where
  \<comment> \<open>lines 879 and 901--910: \<open>cachesegs\<close> and \<open>alldata\<close>\<close>
  "available_data ev datastart dataend =
     (let dataspan = [Segment datastart dataend] in
      case frame_cache_segs ev of
        None \<Rightarrow> ([], False)
      | Some cache \<Rightarrow>
          (let cachesegs = coalesce (seg_and cache dataspan) in
           case cachesegs of
             [] \<Rightarrow> (cachesegs, False)
           | _ # _ \<Rightarrow> (cachesegs, snd (last cachesegs) \<ge> snd (last dataspan))))"

definition metric_day :: "int \<Rightarrow> int" where
  \<comment> \<open>\<open>int(x / 1e5)\<close>: true division, then truncation towards zero\<close>
  "metric_day x = (if 0 \<le> x then x div 100000 else - ((- x) div 100000))"

fun split_metric_days :: "segmentlist \<Rightarrow> segmentlist" where
  \<comment> \<open>lines 926--936: the list \<open>seg_tmp\<close> that the loop builds\<close>
  "split_metric_days [] = []"
| "split_metric_days (seg # segs) =
     (let sday = metric_day (fst seg);
          eday = metric_day (snd seg) in
      if sday = eday then seg # split_metric_days segs
      else Segment (fst seg) eday # Segment eday (snd seg) # split_metric_days segs)"

definition analysable_segments :: "config \<Rightarrow> segmentlist \<Rightarrow> segmentlist \<Rightarrow> segmentlist" where
  \<comment> \<open>lines 923--938: restriction to the available data, the metric-day loop, and the
      minimum duration requirement, which reads \<open>segs\<close>\<close>
  "analysable_segments cfg cachesegs segs0 =
     (let segs = coalesce (seg_and cachesegs segs0);
          seg_tmp = split_metric_days segs in
      filter (\<lambda>s. seg_abs s \<ge> segdur cfg) segs)"

definition trigger_segments :: "config \<Rightarrow> segmentlist \<Rightarrow> segmentlist" where
  \<comment> \<open>line 962: \<open>trigsegs\<close>, computed on a copy of \<open>segs\<close>\<close>
  "trigger_segments cfg segs = contract (padding cfg) segs"

section \<open>Submission and the rescue loop (\<open>main\<close>, lines 1320--1412)\<close>

fun submit_loop :: "args \<Rightarrow> env \<Rightarrow> segmentlist \<Rightarrow> nat list \<Rightarrow> run_state \<Rightarrow> outcome \<times> run_state" where
  \<comment> \<open>\<open>for i in range(args.submit_rescue_dag + 1)\<close>, over the indices still to run:
      submission or lookup, \<open>check_call\<close> on \<open>condor_watch_q\<close>, the exit code, and the
      lookup of the rescue DAG; leaving the loop by \<open>break\<close> goes on to the archiving
      code and completes\<close>
  "submit_loop a ev span [] st = (Completed, st)"
| "submit_loop a ev span (i # rest) st =
     (case (if reattach a then
              (case find_job ev i of
                 None \<Rightarrow> Inl ProviderError
               | Some dagid \<Rightarrow> Inr (st\<lparr>reattached := Suc (reattached st)\<rparr>))
            else
              (case submit_dag ev i of
                 None \<Rightarrow> Inl ProviderError
               | Some dagid \<Rightarrow>
                   (let st1 = st\<lparr>submitted := Suc (submitted st)\<rparr> in
                    Inr (if i = 0 then write_segments span st1 else st1)))) of
        Inl e \<Rightarrow> (Raised e, st)
      | Inr st' \<Rightarrow>
          if (case condor_watch_q ev i of None \<Rightarrow> False | Some status \<Rightarrow> status \<noteq> 0)
          then (Raised CalledProcessError, st')
          else
            (case dag_status ev i of
               None \<Rightarrow> (Completed, st')
             | Some exitcode \<Rightarrow>
                 if exitcode = 0 then (Completed, st')
                 else if int i = submit_rescue_dag a then
                   (DagFailed (submit_rescue_dag a + 1), st')
                 else
                   (case find_rescue_dag ev i of
                      None \<Rightarrow> (Raised ProviderError, st')
                    | Some rescue_dag \<Rightarrow> submit_loop a ev span rest st')))"

definition submit_stage :: "args \<Rightarrow> env \<Rightarrow> segmentlist \<Rightarrow> run_state \<Rightarrow> outcome \<times> run_state" where
  \<comment> \<open>lines 1048--1054 (required programs) and 1320--1419\<close>
  "submit_stage a ev span st =
     (if \<not> programs_found ev then (Raised ValueError, st)
      else if no_submit a then
        (Exited NoSubmit 0, if newdag a then write_segments span st else st)
      else if submit_rescue_dag a + 1 \<le> 0 then (Unbound, st)
      else submit_loop a ev span [0..<nat (submit_rescue_dag a + 1)] st)"

section \<open>The run as a whole (\<open>main\<close>, from line 716)\<close>

definition process_segments ::
  "args \<Rightarrow> config \<Rightarrow> env \<Rightarrow> int \<Rightarrow> segmentlist \<Rightarrow> int \<Rightarrow> run_state \<Rightarrow> outcome \<times> run_state" where
  \<comment> \<open>lines 879--1419, after the truncation fixed \<open>segs\<close> and \<open>dataend\<close>\<close>
  "process_segments a cfg ev datastart segs0 dataend st =
     (if \<not> online a \<and> frame_cache_segs ev = None then (Raised RuntimeError, st)
      else
        (let tempfiles = (if use_dev_shm a \<and> length segs0 \<noteq> 0
                          then frame_tempfiles ev else []);
             cachesegs = fst (available_data ev datastart dataend);
             alldata = snd (available_data ev datastart dataend);
             segs = analysable_segments cfg cachesegs segs0 in
         if newdag a \<and> length segs = 0 \<and> online a \<and> alldata then
           clean_exit CaughtUp 0 tempfiles ev (write_segments cachesegs st)
         else if length segs = 0 \<and> online a then clean_exit RetryLater 0 tempfiles ev st
         else if length segs = 0 then (Raised RuntimeError, st)
         else
           (case extent (trigger_segments cfg segs) of
              Inl e \<Rightarrow> (Raised e, st)
            | Inr span \<Rightarrow> submit_stage a ev [span] st)))"

definition main :: "args \<Rightarrow> config \<Rightarrow> env \<Rightarrow> run_state \<Rightarrow> (outcome \<times> run_state) option" where
  \<comment> \<open>\<open>None\<close> is a run that never leaves the truncation loop\<close>
  "main a cfg ev st =
     (case find_run_segment a cfg ev st of
        Inl e \<Rightarrow> Some (Raised e, st)
      | Inr run \<Rightarrow>
          (case validate_span a cfg ev run st of
             Some r \<Rightarrow> Some r
           | None \<Rightarrow>
               (case state_segs ev of
                  None \<Rightarrow> Some (Raised ProviderError, st)
                | Some segs0 \<Rightarrow>
                    (case truncate_segs a cfg segs0 (dataend_of cfg run) of
                       None \<Rightarrow> None
                     | Some (segs, dataend) \<Rightarrow>
                         Some (process_segments a cfg ev (datastart_of cfg run)
                                 segs dataend st)))))"

section \<open>Post-processing operations (\<open>main\<close>, lines 1136--1193)\<close>

fun join :: "string \<Rightarrow> string list \<Rightarrow> string" where
  \<comment> \<open>\<open>sep.join(xs)\<close>\<close>
  "join sep [] = []"
| "join sep [x] = x"
| "join sep (x # y # ys) = x @ sep @ join sep (y # ys)"

text \<open>
  \<open>omicronfiles[c][form]\<close> is a dictionary of dictionaries of file lists; a missing key
  raises \<open>KeyError\<close>.  \<open>prog\<close> is \<open>prog_path["omicron-merge"]\<close> and \<open>mergepath\<close> is
  \<open>str(mergedir / c)\<close>.
\<close>

type_synonym omicronfiles = "string \<Rightarrow> (string \<Rightarrow> string list option) option"

definition lookup_files :: "omicronfiles \<Rightarrow> string \<Rightarrow> string \<Rightarrow> error + string list" where
  "lookup_files files c form =
     (case files c of
        None \<Rightarrow> Inl KeyError
      | Some per_format \<Rightarrow>
          (case per_format form of None \<Rightarrow> Inl KeyError | Some flist \<Rightarrow> Inr flist))"

definition root_operation :: "args \<Rightarrow> string \<Rightarrow> string \<Rightarrow> string \<Rightarrow> string" where
  \<comment> \<open>lines 1151--1154\<close>
  "root_operation a prog mergepath rootfiles =
     (let no_merge = (if skip_root_merge a then ''--no-merge'' else '''') in
      ''  '' @ prog @ '' '' @ no_merge @ ''  '' @
      ''--out-dir '' @ mergepath @ '' '' @ rootfiles @ '' '')"

definition hdf5_operation :: "args \<Rightarrow> string \<Rightarrow> string \<Rightarrow> string \<Rightarrow> string" where
  \<comment> \<open>lines 1162--1166\<close>
  "hdf5_operation a prog mergepath hdf5files =
     (let no_merge = (if skip_root_merge a then ''--no-merge'' else '''') in
      ''  '' @ prog @ '' '' @ no_merge @ ''  '' @
      '' --out-dir '' @ mergepath @ '' '' @ hdf5files @ '' '')"

definition xml_operation :: "args \<Rightarrow> string \<Rightarrow> string \<Rightarrow> string \<Rightarrow> string" where
  \<comment> \<open>lines 1175--1179\<close>
  "xml_operation a prog mergepath xmlfiles =
     (let no_merge = (if skip_ligolw_add a then ''--no-merge'' else '''');
          no_gzip = (if skip_gzip a then ''--no-gzip'' else '''') in
      ''  '' @ prog @ '' '' @ no_merge @ '' '' @ no_gzip @ '' --uint-bug '' @
      '' --out-dir '' @ mergepath @ '' '' @ xmlfiles @ '' '')"

definition format_operation ::
  "string list \<Rightarrow> omicronfiles \<Rightarrow> string \<Rightarrow> string \<Rightarrow> (string \<Rightarrow> string) \<Rightarrow> error + string list" where
  \<comment> \<open>one \<open>if form in fileformats:\<close> block: the operations it appends\<close>
  "format_operation fileformats files c form render =
     (if form \<in> set fileformats then
        (case lookup_files files c form of
           Inl e \<Rightarrow> Inl e
         | Inr flist \<Rightarrow> Inr [render (join '' '' flist)])
      else Inr [])"

definition channel_operations ::
  "args \<Rightarrow> string list \<Rightarrow> string \<Rightarrow> string \<Rightarrow> omicronfiles \<Rightarrow> string \<Rightarrow> error + string list" where
  \<comment> \<open>lines 1137--1193 for one channel \<open>c\<close>: what is appended to \<open>operations\<close>; the
      \<open>txt\<close> block appends no operation but still reads \<open>omicronfiles[c]['txt']\<close>\<close>
  "channel_operations a fileformats prog mergedir files c =
     (let mergepath = mergedir @ ''/'' @ c in
      case format_operation fileformats files c ''root'' (root_operation a prog mergepath) of
        Inl e \<Rightarrow> Inl e
      | Inr root_ops \<Rightarrow>
      (case format_operation fileformats files c ''hdf5'' (hdf5_operation a prog mergepath) of
         Inl e \<Rightarrow> Inl e
       | Inr hdf5_ops \<Rightarrow>
       (case format_operation fileformats files c ''xml'' (xml_operation a prog mergepath) of
          Inl e \<Rightarrow> Inl e
        | Inr xml_ops \<Rightarrow>
        (case format_operation fileformats files c ''txt'' (\<lambda>_. []) of
           Inl e \<Rightarrow> Inl e
         | Inr _ \<Rightarrow> Inr (([newline] @ ''# '' @ c) # root_ops @ hdf5_ops @ xml_ops)))))"

definition carries_flag :: "string \<Rightarrow> string \<Rightarrow> bool" where
  \<comment> \<open>the flag is one of the blank-separated words of the command line\<close>
  "carries_flag flag operation \<longleftrightarrow> flag \<in> set (split_char (CHR '' '') operation)"

section \<open>The concurrency ladder (\<open>main\<close>, lines 1225--1242)\<close>

text \<open>
  Nodes are objects; the model is polymorphic in their identity.  The graph is the
  parent list of every node (\<open>CondorDAGNode.__parents\<close>), to which \<open>add_parent\<close> appends.
\<close>

definition add_parent :: "'a \<Rightarrow> 'a \<Rightarrow> ('a \<Rightarrow> 'a list) \<Rightarrow> ('a \<Rightarrow> 'a list)" where
  \<comment> \<open>\<open>cj.add_parent(pj)\<close>\<close>
  "add_parent cj pj parents = parents(cj := parents cj @ [pj])"

definition link_jobs :: "'a list \<Rightarrow> 'a list \<Rightarrow> ('a \<Rightarrow> 'a list) \<Rightarrow> ('a \<Rightarrow> 'a list)" where
  \<comment> \<open>\<open>for pj in parent_jobs: for cj in child_jobs: cj.add_parent(pj)\<close>\<close>
  "link_jobs parent_jobs child_jobs parents =
     fold (\<lambda>pj. fold (\<lambda>cj. add_parent cj pj) child_jobs) parent_jobs parents"

fun ladder_loop ::
  "int \<Rightarrow> 'a list \<Rightarrow> 'a list \<Rightarrow> 'a list \<Rightarrow> ('a \<Rightarrow> 'a list) \<Rightarrow> 'a list \<times> 'a list \<times> ('a \<Rightarrow> 'a list)" where
  \<comment> \<open>\<open>for j in omicron_nodes\<close> with the state \<open>parent_jobs, child_jobs\<close> and the graph\<close>
  "ladder_loop maxcon [] parent_jobs child_jobs parents = (parent_jobs, child_jobs, parents)"
| "ladder_loop maxcon (j # js) parent_jobs child_jobs parents =
     (if int (length parent_jobs) < maxcon then
        ladder_loop maxcon js (parent_jobs @ [j]) child_jobs parents
      else if int (length child_jobs) < maxcon then
        ladder_loop maxcon js parent_jobs (child_jobs @ [j]) parents
      else
        ladder_loop maxcon js child_jobs [j] (link_jobs parent_jobs child_jobs parents))"

definition concurrency_ladder :: "int \<Rightarrow> 'a list \<Rightarrow> ('a \<Rightarrow> 'a list) \<Rightarrow> ('a \<Rightarrow> 'a list)" where
  \<comment> \<open>lines 1225--1242: the graph after the loop and the final linking\<close>
  "concurrency_ladder maxcon omicron_nodes parents =
     (case ladder_loop maxcon omicron_nodes [] [] parents of
        (parent_jobs, child_jobs, parents') \<Rightarrow>
          if length child_jobs > 0 \<and> length parent_jobs > 0
          then link_jobs parent_jobs child_jobs parents'
          else parents')"

function waves :: "nat \<Rightarrow> 'a list \<Rightarrow> 'a list list" where
  \<comment> \<open>the specification's waves: consecutive groups of \<open>n\<close> nodes in creation order,
      the last one possibly smaller\<close>
  "waves n xs = (if n = 0 \<or> xs = [] then [] else take n xs # waves n (drop n xs))"
  by pat_completeness auto
termination
  by (relation "measure (\<lambda>(n, xs). length xs)") auto

declare waves.simps [simp del]

fun link_waves :: "'a list list \<Rightarrow> ('a \<Rightarrow> 'a list) \<Rightarrow> ('a \<Rightarrow> 'a list)" where
  \<comment> \<open>the specification's ladder: every wave is linked to the wave before it\<close>
  "link_waves (w1 # w2 # ws) parents = link_waves (w2 # ws) (link_jobs w1 w2 parents)"
| "link_waves ws parents = parents"

section \<open>Sample inputs\<close>

definition ligo_config :: config where
  \<comment> \<open>the timing parameters of the module's docstring\<close>
  "ligo_config = \<lparr>chunkdur = 124, segdur = 64, overlap = 4\<rparr>"

definition default_args :: args where
  \<comment> \<open>the parser's defaults: an online run on a new DAG\<close>
  "default_args =
     \<lparr>gps = None, use_dev_shm = False, reattach = False, rescue = False,
      no_submit = False, submit_rescue_dag = 0, max_concurrent = 10,
      skip_root_merge = False, skip_hdf5_merge = False, skip_ligolw_add = False,
      skip_gzip = False, archive = False\<rparr>"

definition sample_env :: env where
  \<comment> \<open>data up to GPS 2002, the detector in the right state during \<open>[998, 1500)\<close>,
      frames for the whole span, and a DAG that is watched to its end and fails with
      exit code 1\<close>
  "sample_env =
     \<lparr>latest_data_gps = 2002, state_segs = Some [(998, 1500)],
      frame_cache_segs = Some [(998, 2002)], programs_found = True,
      submit_dag = (\<lambda>i. Some 1), find_job = (\<lambda>i. Some 1),
      condor_watch_q = (\<lambda>i. Some 0), dag_status = (\<lambda>i. Some 1),
      find_rescue_dag = (\<lambda>i. Some ''omicron.dag.rescue001''),
      frame_tempfiles = [], clean_tempfiles_ok = True\<rparr>"

definition sample_state :: run_state where
  \<comment> \<open>the previous run ended at GPS 1000; the six run directories are empty\<close>
  "sample_state =
     \<lparr>segfile = Some [(0, 1000)], submitted = 0, reattached = 0,
      run_dirs = [Dir [], Dir [], Dir [], Dir [], Dir [], Dir []]\<rparr>"

definition merged_dirs :: "entry list" where
  \<comment> \<open>the run directories after an earlier run: a cache file, and a channel directory
      with a file under \<open>merge\<close>\<close>
  "merged_dirs = [Dir [File], Dir [], Dir [], Dir [], Dir [], Dir [Dir [File]]]"

definition sample_files :: omicronfiles where
  \<comment> \<open>two files of each format for the channel \<open>H1:A\<close>\<close>
  "sample_files =
     (\<lambda>c. if c = ''H1:A''
          then Some (\<lambda>form.
                 if form = ''root'' then Some [''a.root'', ''b.root'']
                 else if form = ''hdf5'' then Some [''a.h5'', ''b.h5'']
                 else if form = ''xml'' then Some [''a.xml'', ''b.xml'']
                 else None)
          else None)"

section \<open>Properties\<close>

lemmas run_defs = main_def find_run_segment_def validate_span_def truncate_segs_def
  process_segments_def available_data_def analysable_segments_def trigger_segments_def
  submit_stage_def clean_exit_def write_segments_def get_last_run_segment_def
  datastart_of_def dataend_of_def dataduration_of_def padding_def online_def newdag_def
  coalesce_def seg_and_def iand_def isub.simps upper_le_def le_lower_def contract_def Segment_def seg_abs_def metric_day_def
  ligo_config_def default_args_def sample_env_def sample_state_def Let_def

subsection \<open>Channel parsing and exclusion\<close>

lemma split_char_nonempty: "split_char c s \<noteq> []"
  by (induction s) (auto split: list.splits)

lemma split_once_length: "length (split_once c s) = (if c \<in> set s then 2 else 1)"
  by (induction s) (auto split: list.splits)

lemma split_once_nonempty: "split_once c s \<noteq> []"
  by (induction s) (auto split: list.splits)

lemma channel_lines_nonempty: "channel_lines raw \<noteq> []"
  by (simp add: channel_lines_def split_char_nonempty)

lemma min_list_lengths:
  assumes "rows \<noteq> []" and "\<forall>r \<in> set rows. length r = 1 \<or> length r = 2"
  shows "min_list (map length rows) = (if list_all (\<lambda>r. length r = 2) rows then 2 else 1)"
  using assms
proof (induction rows)
  case Nil
  then show ?case by simp
next
  case (Cons r rows)
  show ?case
  proof (cases rows)
    case Nil
    with Cons.prems show ?thesis by auto
  next
    case (Cons r' rows')
    with Cons.IH Cons.prems
    have ih: "min_list (map length rows) = (if list_all (\<lambda>r. length r = 2) rows then 2 else 1)"
      by simp
    from Cons have "min_list (map length (r # rows)) = min (length r) (min_list (map length rows))"
      by simp
    with ih Cons.prems show ?thesis by (auto simp: min_def)
  qed
qed

lemma upt_2: "[0..<2] = [0, Suc 0]"
  by (simp add: numeral_2_eq_2)

lemma parse_channels_two_column:
  assumes "two_column raw"
  shows "fst (parse_channels raw) = PyTuple (channel_names raw)"
proof -
  let ?rows = "map (split_once (CHR '' '')) (channel_lines raw)"
  have ne: "?rows \<noteq> []" by (simp add: channel_lines_nonempty)
  have len: "\<forall>r \<in> set ?rows. length r = 1 \<or> length r = 2"
    by (auto simp: split_once_length)
  have all2: "list_all (\<lambda>r. length r = 2) ?rows"
    using assms by (auto simp: two_column_def list_all_iff split_once_length)
  have "min_list (map length ?rows) = 2"
    using min_list_lengths[OF ne len] all2 by simp
  then have "zip_star ?rows = [map (\<lambda>r. r ! 0) ?rows, map (\<lambda>r. r ! 1) ?rows]"
    using ne by (simp add: zip_star_def upt_2)
  moreover have "map (\<lambda>r. r ! 0) ?rows = channel_names raw"
    by (simp add: channel_names_def hd_conv_nth split_once_nonempty)
  ultimately show ?thesis
    by (simp add: parse_channels_def Let_def)
qed

lemma parse_channels_one_column:
  assumes "\<not> two_column raw"
  shows "fst (parse_channels raw) = PyList (channel_lines raw)"
proof -
  let ?rows = "map (split_once (CHR '' '')) (channel_lines raw)"
  have ne: "?rows \<noteq> []" by (simp add: channel_lines_nonempty)
  have len: "\<forall>r \<in> set ?rows. length r = 1 \<or> length r = 2"
    by (auto simp: split_once_length)
  have all2: "\<not> list_all (\<lambda>r. length r = 2) ?rows"
    using assms by (auto simp: two_column_def list_all_iff split_once_length)
  have "min_list (map length ?rows) = 1"
    using min_list_lengths[OF ne len] all2 by simp
  then have "zip_star ?rows = [map (\<lambda>r. r ! 0) ?rows]"
    using ne by (simp add: zip_star_def)
  then show ?thesis
    by (simp add: parse_channels_def Let_def)
qed

lemma remove_excluded_tuple:
  "n \<le> length xs \<Longrightarrow>
   remove_excluded n (PyTuple xs) excl =
     (if \<exists>c \<in> set (take n xs). c \<in> set excl then Inl AttributeError else Inr (PyTuple xs))"
proof (induction n)
  case 0
  then show ?case by simp
next
  case (Suc n)
  then have "take (Suc n) xs = take n xs @ [xs ! n]"
    by (simp add: take_Suc_conv_app_nth)
  with Suc show ?case
    by (auto simp: Let_def)
qed

lemma remove_excluded_list:
  "n \<le> length xs \<Longrightarrow>
   remove_excluded n (PyList xs) excl =
     Inr (PyList (filter (\<lambda>c. c \<notin> set excl) (take n xs) @ drop n xs))"
proof (induction n arbitrary: xs)
  case 0
  then show ?case by simp
next
  case (Suc n)
  then have t: "take (Suc n) xs = take n xs @ [xs ! n]"
    by (simp add: take_Suc_conv_app_nth)
  have d: "drop n xs = xs ! n # drop (Suc n) xs"
    using Suc.prems by (simp add: Cons_nth_drop_Suc)
  show ?case
  proof (cases "xs ! n \<in> set excl")
    case True
    have "n \<le> length (pop xs n)" using Suc.prems by (simp add: pop_def)
    from Suc.IH[OF this] True Suc.prems show ?thesis
      by (simp add: Let_def t pop_def)
  next
    case False
    from Suc.IH[of xs] False Suc.prems show ?thesis
      by (simp add: Let_def t d)
  qed
qed

text \<open>
  Claim C10.  When every line of the \<open>channels\<close> option has the two-column form, parsing
  yields a tuple of the channel names, and the exclusion loop ends in \<open>AttributeError\<close>
  exactly when one of these names is in \<open>--exclude-channel\<close>; with no match the tuple
  passes unchanged.  In any other format the channels stay a list, and the loop
  succeeds, returning the lines that are not excluded.
\<close>

theorem exclude_channel_attribute_error:
  "(two_column raw \<longrightarrow>
      fst (parse_channels raw) = PyTuple (channel_names raw) \<and>
      filter_channels raw exclude_channel =
        (if \<exists>c \<in> set (channel_names raw). c \<in> set exclude_channel
         then Inl AttributeError else Inr (PyTuple (channel_names raw)))) \<and>
   (\<not> two_column raw \<longrightarrow>
      filter_channels raw exclude_channel =
        Inr (PyList (filter (\<lambda>c. c \<notin> set exclude_channel) (channel_lines raw))))"
  by (simp add: filter_channels_def Let_def parse_channels_two_column
      parse_channels_one_column remove_excluded_tuple remove_excluded_list)

theorem exclude_channel_attribute_error_witness:
  "two_column (''H1:A 4096'' @ [newline] @ ''H1:B 4096'') \<and>
   filter_channels (''H1:A 4096'' @ [newline] @ ''H1:B 4096'') [''H1:B''] = Inl AttributeError \<and>
   \<not> two_column (''H1:A'' @ [newline] @ ''H1:B'') \<and>
   filter_channels (''H1:A'' @ [newline] @ ''H1:B'') [''H1:B''] = Inr (PyList [''H1:A''])"
  using exclude_channel_attribute_error [of "''H1:A 4096'' @ [newline] @ ''H1:B 4096''" "[''H1:B'']"]
    exclude_channel_attribute_error [of "''H1:A'' @ [newline] @ ''H1:B''" "[''H1:B'']"]
  by (simp add: two_column_def channel_names_def channel_lines_def newline_def
      strip_char_def rstrip_char_def)

subsection \<open>The concurrency ladder\<close>

lemma waves_simps':
  "waves n [] = []"
  "n > 0 \<Longrightarrow> xs \<noteq> [] \<Longrightarrow> waves n xs = take n xs # waves n (drop n xs)"
  by (subst waves.simps, simp)+

lemma waves_short: "n > 0 \<Longrightarrow> xs \<noteq> [] \<Longrightarrow> length xs \<le> n \<Longrightarrow> waves n xs = [xs]"
  by (simp add: waves_simps')

lemma waves_full: "n > 0 \<Longrightarrow> length xs = n \<Longrightarrow> waves n (xs @ ys) = xs # waves n ys"
  by (cases "xs = []") (simp_all add: waves_simps')

lemma ladder_loop_full:
  assumes "n > 0" "length P = n" "length C \<le> n"
  shows "(case ladder_loop (int n) ys P C g of (P', C', g') \<Rightarrow>
            if length C' > 0 \<and> length P' > 0 then link_jobs P' C' g' else g')
         = link_waves (P # waves n (C @ ys)) g"
  using assms
proof (induction ys arbitrary: P C g)
  case Nil
  then show ?case
    by (cases "C = []") (auto simp: waves_simps' waves_short)
next
  case (Cons j js)
  show ?case
  proof (cases "length C < n")
    case True
    with Cons.prems Cons.IH[of P "C @ [j]" g] show ?thesis by simp
  next
    case False
    with Cons.prems have len: "length C = n" by simp
    have "waves n (C @ j # js) = C # waves n ([j] @ js)"
      using waves_full[OF Cons.prems(1) len] by simp
    with Cons.prems len Cons.IH[of C "[j]" "link_jobs P C g"] show ?thesis by simp
  qed
qed

lemma ladder_loop_filling:
  assumes "n > 0" "length P < n"
  shows "(case ladder_loop (int n) ys P [] g of (P', C', g') \<Rightarrow>
            if length C' > 0 \<and> length P' > 0 then link_jobs P' C' g' else g')
         = link_waves (waves n (P @ ys)) g"
  using assms
proof (induction ys arbitrary: P)
  case Nil
  then show ?case
    by (cases "P = []") (simp_all add: waves_simps' waves_short)
next
  case (Cons j js)
  show ?case
  proof (cases "length (P @ [j]) < n")
    case True
    with Cons.prems Cons.IH[of "P @ [j]"] show ?thesis by simp
  next
    case False
    with Cons.prems have len: "length (P @ [j]) = n" by simp
    have "waves n ((P @ [j]) @ js) = (P @ [j]) # waves n js"
      using waves_full[OF Cons.prems(1) len] by simp
    with Cons.prems ladder_loop_full[OF Cons.prems(1) len, of "[]" js g] show ?thesis by simp
  qed
qed

lemma concurrency_ladder_waves:
  "n > 0 \<Longrightarrow> concurrency_ladder (int n) nodes g = link_waves (waves n nodes) g"
  using ladder_loop_filling[of n "[]" nodes g] by (simp add: concurrency_ladder_def)

lemma fold_add_parent:
  "distinct C \<Longrightarrow> fold (\<lambda>cj. add_parent cj pj) C g = (\<lambda>c. if c \<in> set C then g c @ [pj] else g c)"
  by (induction C arbitrary: g) (auto simp: add_parent_def fun_eq_iff)

lemma link_jobs_apply:
  "distinct C \<Longrightarrow> link_jobs P C g = (\<lambda>c. if c \<in> set C then g c @ P else g c)"
  unfolding link_jobs_def
  by (induction P arbitrary: g) (auto simp: fold_add_parent fun_eq_iff)


lemma link_waves_outside:
  "c \<notin> \<Union>(set ` set (tl ws)) \<Longrightarrow> distinct (concat ws) \<Longrightarrow> link_waves ws g c = g c"
proof (induction ws g rule: link_waves.induct)
  case (1 w1 w2 ws g)
  then show ?case by (simp add: link_jobs_apply)
qed simp_all

lemma link_waves_parents:
  "distinct (concat ws) \<Longrightarrow> k < length ws \<Longrightarrow> c \<in> set (ws ! k) \<Longrightarrow>
   link_waves ws g c = g c @ (if k = 0 then [] else ws ! (k - 1))"
proof (induction ws g arbitrary: k rule: link_waves.induct)
  case (1 w1 w2 ws g)
  have d2: "distinct w2" and dtl: "distinct (concat (w2 # ws))"
    using "1.prems"(1) by simp_all
  show ?case
  proof (cases k)
    case 0
    with "1.prems" have "c \<in> set w1" by simp
    with "1.prems"(1) have out: "c \<notin> \<Union>(set ` set (tl (w1 # w2 # ws)))" by auto
    from link_waves_outside[OF out "1.prems"(1)] 0 show ?thesis by simp
  next
    case (Suc k')
    with "1.prems" have k': "k' < length (w2 # ws)" and c: "c \<in> set ((w2 # ws) ! k')"
      by simp_all
    from "1.IH"[OF dtl k' c]
    have ih: "link_waves (w2 # ws) (link_jobs w1 w2 g) c =
              link_jobs w1 w2 g c @ (if k' = 0 then [] else (w2 # ws) ! (k' - 1))" .
    show ?thesis
    proof (cases k')
      case 0
      with c have "c \<in> set w2" by simp
      with ih 0 Suc d2 show ?thesis by (simp add: link_jobs_apply)
    next
      case (Suc k'')
      have "c \<notin> set w2"
      proof
        assume "c \<in> set w2"
        moreover from c Suc k' have "c \<in> \<Union>(set ` set ws)" by auto
        ultimately show False using "1.prems"(1) by auto
      qed
      with ih Suc \<open>k = Suc k'\<close> d2 show ?thesis by (simp add: link_jobs_apply)
    qed
  qed
qed simp_all

lemma concat_waves: "n > 0 \<Longrightarrow> concat (waves n xs) = xs"
proof (induction n xs rule: waves.induct)
  case (1 n xs)
  then show ?case by (cases "xs = []") (simp_all add: waves_simps')
qed

lemma waves_bounds: "n > 0 \<Longrightarrow> w \<in> set (waves n xs) \<Longrightarrow> w \<noteq> [] \<and> length w \<le> n"
proof (induction n xs rule: waves.induct)
  case (1 n xs)
  then show ?case by (cases "xs = []") (auto simp: waves_simps')
qed

lemma waves_full_before_last:
  "n > 0 \<Longrightarrow> Suc k < length (waves n xs) \<Longrightarrow> length (waves n xs ! k) = n"
proof (induction n xs arbitrary: k rule: waves.induct)
  case (1 n xs)
  show ?case
  proof (cases "xs = []")
    case True
    with "1.prems" show ?thesis by (simp add: waves_simps')
  next
    case False
    with "1.prems" have w: "waves n xs = take n xs # waves n (drop n xs)"
      by (simp add: waves_simps')
    show ?thesis
    proof (cases k)
      case 0
      with "1.prems" w have "waves n (drop n xs) \<noteq> []" by auto
      then have "drop n xs \<noteq> []" by (auto simp: waves_simps')
      with 0 w show ?thesis by simp
    next
      case (Suc k')
      with "1.prems" w "1.IH"[of k'] False show ?thesis by simp
    qed
  qed
qed

text \<open>
  Claim C6.  For \<open>maxcon \<ge> 1\<close> and pairwise different primary nodes, the loop of lines
  1225--1242 cuts \<open>omicron_nodes\<close>, in creation order, into consecutive non-empty waves
  of at most \<open>maxcon\<close> nodes (exactly \<open>maxcon\<close> in every wave but the last).  A node of
  the first wave gets no parent, a node of wave \<open>k + 1\<close> gets exactly the nodes of wave
  \<open>k\<close>, in order, appended to the parents it had, and no other node is touched.
\<close>

theorem max_concurrent_ladder:
  assumes "1 \<le> maxcon" and "distinct omicron_nodes"
  shows "concat (waves (nat maxcon) omicron_nodes) = omicron_nodes \<and>
    (\<forall>w \<in> set (waves (nat maxcon) omicron_nodes). w \<noteq> [] \<and> int (length w) \<le> maxcon) \<and>
    (\<forall>k. Suc k < length (waves (nat maxcon) omicron_nodes) \<longrightarrow>
         int (length (waves (nat maxcon) omicron_nodes ! k)) = maxcon) \<and>
    (\<forall>k < length (waves (nat maxcon) omicron_nodes).
       \<forall>c \<in> set (waves (nat maxcon) omicron_nodes ! k).
         concurrency_ladder maxcon omicron_nodes parents c =
           parents c @ (if k = 0 then [] else waves (nat maxcon) omicron_nodes ! (k - 1))) \<and>
    (\<forall>c. c \<notin> set omicron_nodes \<longrightarrow>
         concurrency_ladder maxcon omicron_nodes parents c = parents c)"
proof -
  let ?n = "nat maxcon"
  let ?ws = "waves ?n omicron_nodes"
  from assms(1) have n: "?n > 0" and m: "int ?n = maxcon" by simp_all
  have cw: "concat ?ws = omicron_nodes" using n by (rule concat_waves)
  have d: "distinct (concat ?ws)" using cw assms(2) by simp
  have lad: "concurrency_ladder maxcon omicron_nodes parents = link_waves ?ws parents"
    using concurrency_ladder_waves[OF n, of omicron_nodes parents] m by simp
  have b: "\<forall>w \<in> set ?ws. w \<noteq> [] \<and> int (length w) \<le> maxcon"
  proof
    fix w assume "w \<in> set ?ws"
    from waves_bounds[OF n this] have "w \<noteq> []" and "length w \<le> ?n" by simp_all
    with m show "w \<noteq> [] \<and> int (length w) \<le> maxcon" by linarith
  qed
  have f: "\<forall>k. Suc k < length ?ws \<longrightarrow> int (length (?ws ! k)) = maxcon"
  proof (intro allI impI)
    fix k assume "Suc k < length ?ws"
    from waves_full_before_last[OF n this] m show "int (length (?ws ! k)) = maxcon" by simp
  qed
  have p: "\<forall>k < length ?ws. \<forall>c \<in> set (?ws ! k).
       concurrency_ladder maxcon omicron_nodes parents c =
           parents c @ (if k = 0 then [] else ?ws ! (k - 1))"
    using link_waves_parents[OF d] lad by simp
  have o: "\<forall>c. c \<notin> set omicron_nodes \<longrightarrow>
         concurrency_ladder maxcon omicron_nodes parents c = parents c"
  proof (intro allI impI)
    fix c assume "c \<notin> set omicron_nodes"
    with cw have "c \<notin> \<Union>(set ` set ?ws)" by (metis set_concat)
    then have "c \<notin> \<Union>(set ` set (tl ?ws))" by (cases ?ws) auto
    from link_waves_outside[OF this d] lad show "concurrency_ladder maxcon omicron_nodes parents c = parents c"
      by simp
  qed
  from cw b f p o show ?thesis by blast
qed

theorem max_concurrent_ladder_witness:
  "(1::int) \<le> 2 \<and> distinct [0::nat, 1, 2, 3, 4] \<and>
   waves (nat 2) [0::nat, 1, 2, 3, 4] = [[0, 1], [2, 3], [4]] \<and>
   concurrency_ladder 2 [0::nat, 1, 2, 3, 4] (\<lambda>_. []) 1 = [] \<and>
   concurrency_ladder 2 [0::nat, 1, 2, 3, 4] (\<lambda>_. []) 3 = [0, 1] \<and>
   concurrency_ladder 2 [0::nat, 1, 2, 3, 4] (\<lambda>_. []) 4 = [2, 3] \<and>
   concurrency_ladder 2 [0::nat, 1, 2, 3, 4] (\<lambda>_. []) 7 = []"
proof -
  have h1: "(1::int) \<le> 2" by simp
  have h2: "distinct [0::nat, 1, 2, 3, 4]" by simp
  have w: "waves (nat 2) [0::nat, 1, 2, 3, 4] = [[0, 1], [2, 3], [4]]"
    by code_simp
  note t = max_concurrent_ladder[OF h1 h2, of "\<lambda>_. []", unfolded w]
  from t have p: "\<forall>k<3. \<forall>c\<in>set ([[0, 1], [2, 3], [4::nat]] ! k).
     concurrency_ladder 2 [0::nat, 1, 2, 3, 4] (\<lambda>_. []) c
       = [] @ (if k = 0 then [] else [[0, 1], [2, 3], [4]] ! (k - 1))"
    by simp
  from t have o: "\<forall>c. c \<notin> set [0::nat, 1, 2, 3, 4] \<longrightarrow>
         concurrency_ladder 2 [0::nat, 1, 2, 3, 4] (\<lambda>_. []) c = []"
    by simp
  from p[rule_format, of 0 1] have a: "concurrency_ladder 2 [0::nat, 1, 2, 3, 4] (\<lambda>_. []) 1 = []"
    by simp
  from p[rule_format, of 1 3] have b: "concurrency_ladder 2 [0::nat, 1, 2, 3, 4] (\<lambda>_. []) 3 = [0, 1]"
    by simp
  from p[rule_format, of 2 4] have c: "concurrency_ladder 2 [0::nat, 1, 2, 3, 4] (\<lambda>_. []) 4 = [2, 3]"
    by simp
  from o[rule_format, of 7] have d: "concurrency_ladder 2 [0::nat, 1, 2, 3, 4] (\<lambda>_. []) 7 = []"
    by simp
  from h1 h2 w a b c d show ?thesis by blast
qed

subsection \<open>Truncation of the last segment\<close>

lemma truncate_loop_steady:
  assumes d: "0 < chunkdur cfg - overlap cfg" and o: "0 \<le> overlap cfg"
  shows "\<exists>n::nat. truncate_loop cfg e t (chunkdur cfg - overlap cfg)
                 = Some (t + int n * (chunkdur cfg - overlap cfg)) \<and>
               e < t + int n * (chunkdur cfg - overlap cfg) + chunkdur cfg \<and>
               (0 < n \<longrightarrow> t + int n * (chunkdur cfg - overlap cfg) \<le> e) \<and>
               (\<forall>m < n. t + int m * (chunkdur cfg - overlap cfg) + chunkdur cfg \<le> e)"
proof (induction "nat (e - t - chunkdur cfg + 1)" arbitrary: t rule: less_induct)
  case less
  let ?d = "chunkdur cfg - overlap cfg"
  show ?case
  proof (cases "t + chunkdur cfg \<le> e")
    case False
    then have "truncate_loop cfg e t ?d = Some t"
      by (subst truncate_loop.simps) simp
    with False show ?thesis by (intro exI[of _ 0]) simp
  next
    case True
    have smaller: "nat (e - (t + ?d) - chunkdur cfg + 1) < nat (e - t - chunkdur cfg + 1)"
      using True d by linarith
    from less[OF smaller] obtain n :: nat where
      n: "truncate_loop cfg e (t + ?d) ?d = Some (t + ?d + int n * ?d)"
         "e < t + ?d + int n * ?d + chunkdur cfg"
         "0 < n \<longrightarrow> t + ?d + int n * ?d \<le> e"
         "\<forall>m < n. t + ?d + int m * ?d + chunkdur cfg \<le> e"
      by blast
    have unfold: "truncate_loop cfg e t ?d = truncate_loop cfg e (t + ?d) ?d"
      using True by (subst truncate_loop.simps) simp
    have eq: "t + ?d + int n * ?d = t + int (Suc n) * ?d"
      by (simp add: algebra_simps)
    have le: "t + int (Suc n) * ?d \<le> e"
    proof (cases "n = 0")
      case True
      with \<open>t + chunkdur cfg \<le> e\<close> o show ?thesis by simp
    next
      case False
      with n(3) eq show ?thesis by simp
    qed
    have before: "\<forall>m < Suc n. t + int m * ?d + chunkdur cfg \<le> e"
    proof (intro allI impI)
      fix m assume m: "m < Suc n"
      show "t + int m * ?d + chunkdur cfg \<le> e"
      proof (cases m)
        case 0
        with True show ?thesis by simp
      next
        case (Suc m')
        with m n(4) have "t + ?d + int m' * ?d + chunkdur cfg \<le> e" by simp
        moreover have "t + ?d + int m' * ?d = t + int (Suc m') * ?d"
          by (simp add: algebra_simps)
        ultimately show ?thesis using Suc by simp
      qed
    qed
    show ?thesis
      using unfold n(1,2) eq le before by (intro exI[of _ "Suc n"]) simp
  qed
qed

lemma truncate_loop_first:
  assumes d: "0 < chunkdur cfg - overlap cfg" and o: "0 \<le> overlap cfg"
  shows "\<exists>k::nat. truncate_loop cfg e s (chunkdur cfg) = Some (s + stepped cfg k) \<and>
          e < s + stepped cfg k + chunkdur cfg \<and>
          (0 < k \<longrightarrow> s + stepped cfg k \<le> e) \<and>
          (\<forall>j < k. s + stepped cfg j + chunkdur cfg \<le> e)"
proof (cases "s + chunkdur cfg \<le> e")
  case False
  then have "truncate_loop cfg e s (chunkdur cfg) = Some s"
    by (subst truncate_loop.simps) simp
  with False show ?thesis by (intro exI[of _ 0]) (simp add: stepped_def)
next
  case True
  let ?d = "chunkdur cfg - overlap cfg"
  from truncate_loop_steady[OF d o, of e "s + chunkdur cfg"] obtain n :: nat where
    n: "truncate_loop cfg e (s + chunkdur cfg) ?d = Some (s + chunkdur cfg + int n * ?d)"
       "e < s + chunkdur cfg + int n * ?d + chunkdur cfg"
       "0 < n \<longrightarrow> s + chunkdur cfg + int n * ?d \<le> e"
       "\<forall>m < n. s + chunkdur cfg + int m * ?d + chunkdur cfg \<le> e"
    by blast
  have unfold: "truncate_loop cfg e s (chunkdur cfg) = truncate_loop cfg e (s + chunkdur cfg) ?d"
    using True by (subst truncate_loop.simps) simp
  have le: "s + chunkdur cfg + int n * ?d \<le> e"
    using n(3) True by (cases "n = 0") simp_all
  have before: "\<forall>j < Suc n. s + stepped cfg j + chunkdur cfg \<le> e"
  proof (intro allI impI)
    fix j assume j: "j < Suc n"
    show "s + stepped cfg j + chunkdur cfg \<le> e"
    proof (cases j)
      case 0
      with True show ?thesis by (simp add: stepped_def)
    next
      case (Suc m)
      with j n(4) show ?thesis by (simp add: stepped_def)
    qed
  qed
  show ?thesis
    using unfold n(1,2) le before by (intro exI[of _ "Suc n"]) (simp add: stepped_def)
qed

lemma padding_bounds: "0 \<le> overlap cfg \<Longrightarrow> 0 \<le> padding cfg \<and> padding cfg \<le> overlap cfg"
  by (simp add: padding_def)

lemma stepped_nonneg: "0 \<le> overlap cfg \<Longrightarrow> overlap cfg < chunkdur cfg \<Longrightarrow> 0 \<le> stepped cfg k"
  by (simp add: stepped_def)

text \<open>
  Claim C3, as amended.  Online, on a new DAG, with the last segment ending at \<open>dataend\<close>
  and \<open>0 \<le> overlap < chunkdur\<close>: a last segment shorter than \<open>2 * chunkdur\<close> is removed
  and \<open>dataend\<close> becomes its start.  Otherwise the loop returns, the last segment keeps
  its start and gets the new end \<open>t\<close>, which is also the new \<open>dataend\<close>; \<open>t\<close> is the start
  plus a whole number \<open>k\<close> of stepped chunks and does not exceed the old end less
  \<open>chunkdur + padding\<close>; \<open>k\<close> is the first number at which another whole \<open>chunkdur\<close> no
  longer fits below that bound, not the largest number of stepped chunks that fit; and
  the new duration is strictly less than the old one.
\<close>

theorem truncate_last_segment:
  assumes "online a" and "newdag a"
    and "segs \<noteq> []" and "snd (last segs) = dataend" and "fst (last segs) \<le> snd (last segs)"
    and "0 \<le> overlap cfg" and "overlap cfg < chunkdur cfg"
  shows "(seg_abs (last segs) < 2 * chunkdur cfg \<longrightarrow>
            truncate_segs a cfg segs dataend = Some (butlast segs, fst (last segs))) \<and>
         (2 * chunkdur cfg \<le> seg_abs (last segs) \<longrightarrow>
            (\<exists>t. \<exists>k::nat.
               truncate_segs a cfg segs dataend = Some (butlast segs @ [(fst (last segs), t)], t) \<and>
               t = fst (last segs) + stepped cfg k \<and>
               t \<le> dataend - (chunkdur cfg + padding cfg) \<and>
               dataend - (chunkdur cfg + padding cfg) < t + chunkdur cfg \<and>
               (\<forall>j < k. fst (last segs) + stepped cfg j + chunkdur cfg
                          \<le> dataend - (chunkdur cfg + padding cfg)) \<and>
               t - fst (last segs) < seg_abs (last segs)))"
proof (intro conjI impI)
  assume "seg_abs (last segs) < 2 * chunkdur cfg"
  with assms show "truncate_segs a cfg segs dataend = Some (butlast segs, fst (last segs))"
    by (cases segs) (simp_all add: truncate_segs_def Let_def)
next
  assume long: "2 * chunkdur cfg \<le> seg_abs (last segs)"
  let ?s = "fst (last segs)"
  let ?e = "snd (last segs) - (chunkdur cfg + padding cfg)"
  have d: "0 < chunkdur cfg - overlap cfg" using assms(7) by simp
  from truncate_loop_first[OF d assms(6), of ?e ?s] obtain k :: nat where
    k: "truncate_loop cfg ?e ?s (chunkdur cfg) = Some (?s + stepped cfg k)"
       "?e < ?s + stepped cfg k + chunkdur cfg"
       "0 < k \<longrightarrow> ?s + stepped cfg k \<le> ?e"
       "\<forall>j < k. ?s + stepped cfg j + chunkdur cfg \<le> ?e"
    by blast
  define t where "t = ?s + stepped cfg k"
  have pb: "0 \<le> padding cfg" "padding cfg \<le> overlap cfg"
    using padding_bounds[OF assms(6)] by simp_all
  have s_le: "?s \<le> ?e"
    using long pb assms(7) by (simp add: seg_abs_def)
  have t_le: "t \<le> ?e"
  proof (cases "k = 0")
    case True
    with s_le show ?thesis by (simp add: t_def stepped_def)
  next
    case False
    with k(3) show ?thesis by (simp add: t_def)
  qed
  have s_t: "?s \<le> t"
    using stepped_nonneg[OF assms(6,7), of k] by (simp add: t_def)
  have seg: "Segment ?s t = (?s, t)"
    using s_t by (simp add: Segment_def)
  have shorter: "t - ?s < seg_abs (last segs)"
    using t_le pb assms(6,7) by (simp add: seg_abs_def)
  have res: "truncate_segs a cfg segs dataend = Some (butlast segs @ [(?s, t)], t)"
    using assms(1-4) long k(1) seg
    by (cases segs) (simp_all add: truncate_segs_def Let_def t_def)
  show "\<exists>t. \<exists>k::nat.
               truncate_segs a cfg segs dataend = Some (butlast segs @ [(fst (last segs), t)], t) \<and>
               t = fst (last segs) + stepped cfg k \<and>
               t \<le> dataend - (chunkdur cfg + padding cfg) \<and>
               dataend - (chunkdur cfg + padding cfg) < t + chunkdur cfg \<and>
               (\<forall>j < k. fst (last segs) + stepped cfg j + chunkdur cfg
                          \<le> dataend - (chunkdur cfg + padding cfg)) \<and>
               t - fst (last segs) < seg_abs (last segs)"
    using res t_le k(2,4) shorter assms(4) t_def by blast
qed

theorem truncate_last_segment_witness:
  "online default_args \<and> newdag default_args \<and>
   0 \<le> overlap ligo_config \<and> overlap ligo_config < chunkdur ligo_config \<and>
   truncate_segs default_args ligo_config [(1000, 1100)] 1100 = Some ([], 1000) \<and>
   (\<exists>t. truncate_segs default_args ligo_config [(1000, 2002)] 2002 = Some ([(1000, t)], t) \<and>
        t \<le> 1876 \<and> 1876 < t + 124 \<and> t - 1000 < 1002)"
proof -
  have o: "online default_args" and n: "newdag default_args"
    by (simp_all add: online_def newdag_def default_args_def)
  have c: "0 \<le> overlap ligo_config" "overlap ligo_config < chunkdur ligo_config"
    by (simp_all add: ligo_config_def)
  have short: "truncate_segs default_args ligo_config [(1000, 1100)] 1100 = Some ([], 1000)"
    using truncate_last_segment[OF o n _ _ _ c, of "[(1000, 1100)]" 1100]
    by (simp add: seg_abs_def ligo_config_def)
  have long: "\<exists>t. truncate_segs default_args ligo_config [(1000, 2002)] 2002 = Some ([(1000, t)], t) \<and>
        t \<le> 1876 \<and> 1876 < t + 124 \<and> t - 1000 < 1002"
    using truncate_last_segment[OF o n _ _ _ c, of "[(1000, 2002)]" 2002]
    by (simp add: seg_abs_def ligo_config_def padding_def) blast
  from o n c short long show ?thesis by blast
qed

text \<open>
  Claim C3 as it was stated fails: for the last segment \<open>[0, 370)\<close> with the docstring's
  timing, the end less \<open>chunkdur + padding\<close> is 244, which is two stepped chunks from the
  start, yet the loop stops after one chunk, at 124: it does not round down to the
  stepped chunks.
\<close>

theorem truncation_stops_before_rounding_down:
  "truncate_segs default_args ligo_config [(0, 370)] 370 = Some ([(0, 124)], 124) \<and>
   370 - (chunkdur ligo_config + padding ligo_config) = 244 \<and>
   0 + stepped ligo_config 2 = 244 \<and>
   0 + stepped ligo_config 1 = 124"
  by code_simp

subsection \<open>Trigger segments\<close>

lemma coalesced_Cons:
  "coalesced (s # xs) \<longleftrightarrow> fst s < snd s \<and> (\<forall>t \<in> set xs. snd s < fst t) \<and> coalesced xs"
  by (auto simp: coalesced_def)

lemma coalesced_Nil: "coalesced []"
  by (simp add: coalesced_def)

lemma coalesce_from_coalesced:
  "lo \<le> hi \<Longrightarrow> sorted_wrt (\<lambda>s t. fst s \<le> fst t) rest \<Longrightarrow>
   \<forall>s \<in> set rest. lo \<le> fst s \<and> fst s \<le> snd s \<Longrightarrow>
   coalesced (coalesce_from lo hi rest) \<and> (\<forall>s \<in> set (coalesce_from lo hi rest). lo \<le> fst s)"
proof (induction rest arbitrary: lo hi)
  case Nil
  then show ?case by (simp add: coalesced_Cons coalesced_Nil Segment_def)
next
  case (Cons s rest)
  show ?case
  proof (cases "hi \<ge> fst s")
    case True
    have "lo \<le> max hi (snd s)" using Cons.prems(1) by simp
    moreover have "sorted_wrt (\<lambda>s t. fst s \<le> fst t) rest" using Cons.prems(2) by simp
    moreover have "\<forall>s \<in> set rest. lo \<le> fst s \<and> fst s \<le> snd s" using Cons.prems(3) by simp
    ultimately show ?thesis using Cons.IH[of lo "max hi (snd s)"] True by simp
  next
    case False
    have "fst s \<le> snd s" using Cons.prems(3) by simp
    moreover have "sorted_wrt (\<lambda>s t. fst s \<le> fst t) rest" using Cons.prems(2) by simp
    moreover have "\<forall>r \<in> set rest. fst s \<le> fst r \<and> fst r \<le> snd r"
      using Cons.prems(2,3) by simp
    ultimately have ih: "coalesced (coalesce_from (fst s) (snd s) rest)"
      "\<forall>r \<in> set (coalesce_from (fst s) (snd s) rest). fst s \<le> fst r"
      using Cons.IH[of "fst s" "snd s"] by simp_all
    have lo_s: "lo \<le> fst s" using Cons.prems(3) by simp
    show ?thesis
    proof (cases "lo = hi")
      case True
      with False ih lo_s show ?thesis by fastforce
    next
      case neq: False
      with Cons.prems(1) have "lo < hi" by simp
      with False ih lo_s show ?thesis
        by (fastforce simp: coalesced_Cons Segment_def)
    qed
  qed
qed

lemma sorted_fst: "sorted (xs :: segmentlist) \<Longrightarrow> sorted_wrt (\<lambda>s t. fst s \<le> fst t) xs"
  by (erule sorted_wrt_mono_rel[rotated]) (auto simp: less_eq_prod_def)

lemma coalesce_coalesced:
  assumes "\<forall>s \<in> set xs. fst s \<le> snd s"
  shows "coalesced (coalesce xs)"
proof (cases "sort xs")
  case Nil
  then show ?thesis by (simp add: coalesce_def coalesced_Nil)
next
  case (Cons s rest)
  have srt: "sorted (s # rest)" using Cons sorted_sort[of xs] by simp
  have "set (sort xs) = set xs" by simp
  with Cons have st: "set (s # rest) = set xs" by simp
  from sorted_fst[OF srt] have 1: "sorted_wrt (\<lambda>s t. fst s \<le> fst t) rest"
    and 2: "\<forall>r \<in> set rest. fst s \<le> fst r" by simp_all
  from st assms have 3: "fst s \<le> snd s" and 4: "\<forall>r \<in> set rest. fst r \<le> snd r" by auto
  from coalesce_from_coalesced[OF 3 1] 2 4 Cons show ?thesis
    by (simp add: coalesce_def)
qed

lemma coalesce_from_id:
  "coalesced ((lo, hi) # rest) \<Longrightarrow> coalesce_from lo hi rest = (lo, hi) # rest"
proof (induction rest arbitrary: lo hi)
  case Nil
  then show ?case by (simp add: coalesced_Cons Segment_def)
next
  case (Cons t rest)
  from Cons.prems have "coalesced ((fst t, snd t) # rest)" by (simp add: coalesced_Cons)
  from Cons.IH[OF this] Cons.prems show ?case
    by (simp add: coalesced_Cons Segment_def)
qed

lemma coalesced_sorted: "coalesced xs \<Longrightarrow> sorted xs"
proof (induction xs)
  case Nil
  then show ?case by simp
next
  case (Cons s xs)
  then have "\<forall>t \<in> set xs. s \<le> t"
    by (auto simp: coalesced_Cons less_eq_prod_def)
  with Cons show ?case by (simp add: coalesced_Cons)
qed

lemma coalesce_id: "coalesced xs \<Longrightarrow> coalesce xs = xs"
proof (cases xs)
  case Nil
  then show ?thesis by (simp add: coalesce_def)
next
  case (Cons s rest)
  assume c: "coalesced xs"
  then have "sort xs = xs" by (simp add: coalesced_sorted sorted_sort_id)
  with Cons c coalesce_from_id[of "fst s" "snd s" rest] show ?thesis
    by (simp add: coalesce_def)
qed

lemma coalesced_filter: "coalesced xs \<Longrightarrow> coalesced (filter P xs)"
  by (induction xs) (auto simp: coalesced_Cons coalesced_Nil)

lemma coalesced_shrink:
  "0 \<le> p \<Longrightarrow> coalesced xs \<Longrightarrow> \<forall>s \<in> set xs. 2 * p < seg_abs s \<Longrightarrow>
   coalesced (map (\<lambda>s. (fst s + p, snd s - p)) xs)"
proof (induction xs)
  case Nil
  then show ?case by (simp add: coalesced_Nil)
next
  case (Cons s xs)
  then show ?case by (fastforce simp: coalesced_Cons seg_abs_def)
qed

lemma contract_coalesced:
  assumes "0 \<le> p" "coalesced xs" "\<forall>s \<in> set xs. 2 * p < seg_abs s"
  shows "contract p xs = map (\<lambda>s. (fst s + p, snd s - p)) xs"
proof -
  have "\<forall>s \<in> set xs. Segment (fst s + p) (snd s - p) = (fst s + p, snd s - p)"
    using assms(3) by (auto simp: Segment_def seg_abs_def)
  then have "map (\<lambda>s. Segment (fst s + p) (snd s - p)) xs = map (\<lambda>s. (fst s + p, snd s - p)) xs"
    by (intro map_cong) simp_all
  with coalesce_id[OF coalesced_shrink[OF assms]] show ?thesis
    by (simp only: contract_def)
qed

lemma Segment_valid: "fst (Segment a b) \<le> snd (Segment a b)"
  by (simp add: Segment_def)

lemma isub_valid:
  "\<forall>s \<in> set self. fst s \<le> snd s \<Longrightarrow> \<forall>s \<in> set (isub self other). fst s \<le> snd s"
proof (induction self other rule: isub.induct)
  case (1 other)
  then show ?case by simp
next
  case (2 seg self)
  then show ?case by simp
next
  case (3 seg self otherseg other)
  have tl: "\<forall>s \<in> set self. fst s \<le> snd s" and hd: "fst seg \<le> snd seg"
    using "3.prems" by simp_all
  have repl: "\<And>b. \<forall>s \<in> set (Segment b (snd seg) # self). fst s \<le> snd s"
    using tl by (simp add: Segment_valid)
  show ?case
  proof (cases "upper_le (snd otherseg) (fst seg)")
    case True
    show ?thesis
    proof (cases other)
      case Nil
      with True "3.prems" show ?thesis by (subst isub.simps(3)) simp
    next
      case (Cons o' os)
      from "3.IH"(1)[OF True Cons "3.prems"] True Cons show ?thesis
        by (subst isub.simps(3)) simp
    qed
  next
    case nu: False
    show ?thesis
    proof (cases "le_lower (snd seg) (fst otherseg)")
      case True
      from "3.IH"(2)[OF nu True tl] nu True hd show ?thesis
        by (subst isub.simps(3)) simp
    next
      case nl: False
      show ?thesis
      proof (cases "fst otherseg")
        case None
        show ?thesis
        proof (cases "snd otherseg")
          case n2: None
          from "3.IH"(3)[OF nu nl None n2 tl] nu nl None n2 show ?thesis
            by (subst isub.simps(3)) simp
        next
          case (Some b)
          show ?thesis
          proof (cases "b \<ge> snd seg")
            case True
            from "3.IH"(4)[OF nu nl None Some True tl] nu nl None Some True show ?thesis
              by (subst isub.simps(3)) simp
          next
            case False
            from "3.IH"(5)[OF nu nl None Some False repl] nu nl None Some False show ?thesis
              by (subst isub.simps(3)) simp
          qed
        qed
      next
        case (Some a)
        show ?thesis
        proof (cases "a \<le> fst seg")
          case True
          show ?thesis
          proof (cases "snd otherseg")
            case None
            from "3.IH"(6)[OF nu nl Some True None tl] nu nl Some True None show ?thesis
              by (subst isub.simps(3)) simp
          next
            case s2: (Some b)
            show ?thesis
            proof (cases "b \<ge> snd seg")
              case ge: True
              from "3.IH"(7)[OF nu nl Some True s2 ge tl] nu nl Some True s2 ge show ?thesis
                by (subst isub.simps(3)) simp
            next
              case lt: False
              from "3.IH"(8)[OF nu nl Some True s2 lt repl] nu nl Some True s2 lt show ?thesis
                by (subst isub.simps(3)) simp
            qed
          qed
        next
          case False
          show ?thesis
          proof (cases "snd otherseg")
            case None
            from "3.IH"(9)[OF nu nl Some False None tl] nu nl Some False None show ?thesis
              by (subst isub.simps(3)) (simp add: Segment_valid)
          next
            case s2: (Some b)
            show ?thesis
            proof (cases "b \<ge> snd seg")
              case ge: True
              from "3.IH"(10)[OF nu nl Some False s2 ge tl] nu nl Some False s2 ge show ?thesis
                by (subst isub.simps(3)) (simp add: Segment_valid)
            next
              case lt: False
              from "3.IH"(11)[OF nu nl Some False s2 lt repl] nu nl Some False s2 lt show ?thesis
                by (subst isub.simps(3)) (simp add: Segment_valid)
            qed
          qed
        qed
      qed
    qed
  qed
qed

lemma seg_and_valid:
  assumes "\<forall>s \<in> set xs. fst s \<le> snd s" and "\<forall>s \<in> set ys. fst s \<le> snd s"
  shows "\<forall>s \<in> set (seg_and xs ys). fst s \<le> snd s"
proof (cases "length xs \<ge> length ys")
  case True
  then have "seg_and xs ys = isub xs (invert ys)" by (simp add: seg_and_def iand_def)
  with isub_valid[OF assms(1)] show ?thesis by simp
next
  case False
  then have "seg_and xs ys = isub ys (invert xs)" by (simp add: seg_and_def iand_def)
  with isub_valid[OF assms(2)] show ?thesis by simp
qed

lemma analysable_segments_coalesced:
  assumes "\<forall>s \<in> set cachesegs. fst s \<le> snd s" and "\<forall>s \<in> set segs0. fst s \<le> snd s"
  shows "coalesced (analysable_segments cfg cachesegs segs0)"
proof -
  have "coalesced (coalesce (seg_and cachesegs segs0))"
    by (rule coalesce_coalesced[OF seg_and_valid[OF assms]])
  then have "coalesced (filter (\<lambda>s. seg_abs s \<ge> segdur cfg) (coalesce (seg_and cachesegs segs0)))"
    by (rule coalesced_filter)
  then show ?thesis by (simp add: analysable_segments_def Let_def)
qed

lemma analysable_segments_long:
  "s \<in> set (analysable_segments cfg cachesegs segs0) \<Longrightarrow> segdur cfg \<le> seg_abs s"
  by (simp add: analysable_segments_def Let_def)

text \<open>
  Claim C9.  For timing parameters with a segment duration above twice the padding (the
  validation of line 668 accepts no others) and well-formed segments: the trigger
  segments are exactly the processing segments, in the same order, each contracted by
  the padding on both sides, so that each trigger duration is the processing duration
  less \<open>2 * padding\<close>; every processing segment is longer than \<open>2 * padding\<close>; and a
  segment of the analysable data whose duration does not exceed \<open>2 * padding\<close> is not
  among the processing segments: the minimum duration requirement of line 938 has
  dropped it before the contraction, and it gets no trigger segment.
\<close>

theorem trigger_segments_contracted:
  assumes "0 \<le> overlap cfg" and "2 * padding cfg < segdur cfg"
    and "list_all (\<lambda>s. fst s \<le> snd s) cachesegs" and "list_all (\<lambda>s. fst s \<le> snd s) segs0"
  shows "trigger_segments cfg (analysable_segments cfg cachesegs segs0) =
           map (\<lambda>s. (fst s + padding cfg, snd s - padding cfg))
             (analysable_segments cfg cachesegs segs0) \<and>
         map seg_abs (trigger_segments cfg (analysable_segments cfg cachesegs segs0)) =
           map (\<lambda>s. seg_abs s - 2 * padding cfg) (analysable_segments cfg cachesegs segs0) \<and>
         list_all (\<lambda>s. 2 * padding cfg < seg_abs s)
           (analysable_segments cfg cachesegs segs0) \<and>
         (\<forall>s \<in> set (coalesce (seg_and cachesegs segs0)).
            seg_abs s \<le> 2 * padding cfg \<longrightarrow>
            s \<notin> set (analysable_segments cfg cachesegs segs0))"
proof -
  let ?segs = "analysable_segments cfg cachesegs segs0"
  have p: "0 \<le> padding cfg" using assms(1) by (simp add: padding_def)
  have v: "\<forall>s \<in> set cachesegs. fst s \<le> snd s" "\<forall>s \<in> set segs0. fst s \<le> snd s"
    using assms(3,4) by (simp_all add: list_all_iff)
  have long: "\<forall>s \<in> set ?segs. 2 * padding cfg < seg_abs s"
  proof
    fix s assume "s \<in> set ?segs"
    from analysable_segments_long[OF this] assms(2) show "2 * padding cfg < seg_abs s" by simp
  qed
  have eq: "trigger_segments cfg ?segs = map (\<lambda>s. (fst s + padding cfg, snd s - padding cfg)) ?segs"
    unfolding trigger_segments_def
    by (rule contract_coalesced[OF p analysable_segments_coalesced[OF v] long])
  have dur: "map seg_abs (trigger_segments cfg ?segs) = map (\<lambda>s. seg_abs s - 2 * padding cfg) ?segs"
    by (simp add: eq seg_abs_def)
  have all: "list_all (\<lambda>s. 2 * padding cfg < seg_abs s) ?segs"
    using long by (simp add: list_all_iff)
  have drop: "\<forall>s \<in> set (coalesce (seg_and cachesegs segs0)).
            seg_abs s \<le> 2 * padding cfg \<longrightarrow> s \<notin> set ?segs"
  proof (intro ballI impI notI)
    fix s assume "seg_abs s \<le> 2 * padding cfg" and "s \<in> set ?segs"
    with long show False by fastforce
  qed
  from eq dur all drop show ?thesis by blast
qed

theorem trigger_segments_contracted_witness:
  "0 \<le> overlap ligo_config \<and> 2 * padding ligo_config < segdur ligo_config \<and>
   coalesce (seg_and [(998, 2002)] [(998, 1001), (1100, 1500)]) = [(998, 1001), (1100, 1500)] \<and>
   seg_abs (998, 1001) \<le> 2 * padding ligo_config \<and>
   analysable_segments ligo_config [(998, 2002)] [(998, 1001), (1100, 1500)] = [(1100, 1500)] \<and>
   trigger_segments ligo_config
     (analysable_segments ligo_config [(998, 2002)] [(998, 1001), (1100, 1500)]) = [(1102, 1498)]"
proof -
  have h1: "0 \<le> overlap ligo_config" by (simp add: ligo_config_def)
  have h2: "2 * padding ligo_config < segdur ligo_config" by (simp add: ligo_config_def padding_def)
  have h3: "list_all (\<lambda>s. fst s \<le> snd s) [(998, 2002 :: int)]"
    "list_all (\<lambda>s. fst s \<le> snd s) [(998, 1001 :: int), (1100, 1500)]" by simp_all
  have c: "coalesce (seg_and [(998, 2002)] [(998, 1001), (1100, 1500)]) = [(998, 1001), (1100, 1500)]"
    by code_simp
  have s: "seg_abs (998, 1001) \<le> 2 * padding ligo_config"
    by (simp add: seg_abs_def padding_def ligo_config_def)
  have a: "analysable_segments ligo_config [(998, 2002)] [(998, 1001), (1100, 1500)] = [(1100, 1500)]"
    by code_simp
  from trigger_segments_contracted[OF h1 h2 h3]
  have "trigger_segments ligo_config
          (analysable_segments ligo_config [(998, 2002)] [(998, 1001), (1100, 1500)]) =
        map (\<lambda>s. (fst s + padding ligo_config, snd s - padding ligo_config))
          (analysable_segments ligo_config [(998, 2002)] [(998, 1001), (1100, 1500)])"
    by blast
  then have "trigger_segments ligo_config
          (analysable_segments ligo_config [(998, 2002)] [(998, 1001), (1100, 1500)])
     = [(1102, 1498)]"
    by (simp only: a) (simp add: padding_def ligo_config_def)
  with h1 h2 c s a show ?thesis by blast
qed

subsection \<open>The watermark file\<close>

lemma submit_loop_effect:
  "submit_loop a ev span is st = (out, st') \<Longrightarrow>
   submitted st \<le> submitted st' \<and> (submitted st' = submitted st \<longrightarrow> segfile st' = segfile st)"
proof (induction "is" arbitrary: st)
  case Nil
  then show ?case by simp
next
  case (Cons i rest)
  show ?case
  proof (cases "reattach a")
    case True
    show ?thesis
    proof (cases "find_job ev i")
      case None
      with True Cons.prems show ?thesis by simp
    next
      case (Some dagid)
      define st1 where "st1 = st\<lparr>reattached := Suc (reattached st)\<rparr>"
      have s1: "submitted st1 = submitted st" "segfile st1 = segfile st"
        by (simp_all add: st1_def)
      from True Some Cons.prems
      have "(out, st') = (Raised CalledProcessError, st1) \<or> (out, st') = (Completed, st1) \<or>
            (out, st') = (DagFailed (submit_rescue_dag a + 1), st1) \<or>
            (out, st') = (Raised ProviderError, st1) \<or>
            submit_loop a ev span rest st1 = (out, st')"
        by (auto simp: st1_def split: option.splits if_splits)
      with Cons.IH[of st1] s1 show ?thesis by auto
    qed
  next
    case False
    show ?thesis
    proof (cases "submit_dag ev i")
      case None
      with False Cons.prems show ?thesis by simp
    next
      case (Some dagid)
      define st1 where
        "st1 = (if i = 0 then write_segments span (st\<lparr>submitted := Suc (submitted st)\<rparr>)
                else st\<lparr>submitted := Suc (submitted st)\<rparr>)"
      have s1: "submitted st1 = Suc (submitted st)"
        by (simp add: st1_def write_segments_def)
      from False Some Cons.prems
      have "(out, st') = (Raised CalledProcessError, st1) \<or> (out, st') = (Completed, st1) \<or>
            (out, st') = (DagFailed (submit_rescue_dag a + 1), st1) \<or>
            (out, st') = (Raised ProviderError, st1) \<or>
            submit_loop a ev span rest st1 = (out, st')"
        by (auto simp: st1_def Let_def split: option.splits if_splits)
      with Cons.IH[of st1] s1 show ?thesis by auto
    qed
  qed
qed

lemma submit_stage_untouched:
  assumes "submit_stage a ev span st = (out, st')" and "submitted st' = submitted st"
    and "\<not> (exit_site_of out = Some NoSubmit \<and> newdag a)"
  shows "segfile st' = segfile st"
  using assms submit_loop_effect[of a ev span _ st out st']
  by (auto simp: submit_stage_def split: if_splits)

lemma clean_exit_effect:
  "clean_exit site exitcode tempfiles ev st = (out, st') \<Longrightarrow>
   segfile st' = segfile st \<and> submitted st' = submitted st \<and> exit_site_of out = Some site"
  by (auto simp: clean_exit_def split: prod.splits option.splits if_splits)

lemma process_segments_untouched:
  assumes "process_segments a cfg ev datastart segs0 dataend st = (out, st')"
    and "submitted st' = submitted st"
    and "exit_site_of out \<noteq> Some CaughtUp"
    and "\<not> (exit_site_of out = Some NoSubmit \<and> newdag a)"
  shows "segfile st' = segfile st"
proof -
  let ?tmp = "if use_dev_shm a \<and> length segs0 \<noteq> 0 then frame_tempfiles ev else []"
  let ?cs = "fst (available_data ev datastart dataend)"
  let ?segs = "analysable_segments cfg ?cs segs0"
  from assms(1)
  consider (err) "st' = st"
    | (caught) "clean_exit CaughtUp 0 ?tmp ev (write_segments ?cs st) = (out, st')"
    | (retry) "clean_exit RetryLater 0 ?tmp ev st = (out, st')"
    | (go) span where "submit_stage a ev [span] st = (out, st')"
    by (auto simp: process_segments_def Let_def split: if_splits sum.splits)
  then show ?thesis
  proof cases
    case err
    then show ?thesis by simp
  next
    case caught
    from clean_exit_effect[OF this] assms(3) show ?thesis by simp
  next
    case retry
    from clean_exit_effect[OF this] show ?thesis by simp
  next
    case go
    from submit_stage_untouched[OF this assms(2,4)] show ?thesis .
  qed
qed

text \<open>
  Claim C1, as amended.  A run that ends without a successful \<open>condor.submit_dag\<close>
  leaves \<open>segments.txt\<close> as it found it, unless it took the "caught up" exit of lines
  948--951 (whether or not the clean-up before \<open>sys.exit\<close> succeeds) or is a
  \<open>--no-submit\<close> run on a new DAG (line 1322); both write the file on purpose.
\<close>

theorem watermark_untouched_without_submission:
  assumes "main a cfg ev st = Some (out, st')"
    and "submitted st' = submitted st"
    and "exit_site_of out \<noteq> Some CaughtUp"
    and "\<not> (exit_site_of out = Some NoSubmit \<and> newdag a)"
  shows "segfile st' = segfile st"
proof (cases "find_run_segment a cfg ev st")
  case (Inl e)
  with assms(1) show ?thesis by (simp add: main_def)
next
  case (Inr run)
  show ?thesis
  proof (cases "validate_span a cfg ev run st")
    case (Some r)
    with Inr assms(1) have "clean_exit TooShort 0 [] ev st = (out, st') \<or> st' = st"
      by (auto simp: main_def validate_span_def Let_def split: if_splits)
    with clean_exit_effect[of TooShort 0 "[]" ev st out st'] show ?thesis by auto
  next
    case None
    show ?thesis
    proof (cases "state_segs ev")
      case None
      with Inr \<open>validate_span a cfg ev run st = None\<close> assms(1) show ?thesis
        by (simp add: main_def)
    next
      case (Some segs0)
      with Inr \<open>validate_span a cfg ev run st = None\<close> assms(1)
      obtain segs dataend where
        "process_segments a cfg ev (datastart_of cfg run) segs dataend st = (out, st')"
        by (auto simp: main_def split: option.splits)
      from process_segments_untouched[OF this assms(2,3,4)] show ?thesis .
    qed
  qed
qed

theorem watermark_untouched_without_submission_witness:
  "main default_args ligo_config
     (sample_env\<lparr>state_segs := Some [], frame_cache_segs := Some [(998, 1500)]\<rparr>)
     (sample_state\<lparr>run_dirs := merged_dirs\<rparr>)
     = Some (CleanFailed RetryLater OSError,
             sample_state\<lparr>run_dirs := [Dir [File], Dir [Dir [File]]]\<rparr>) \<and>
   segfile (sample_state\<lparr>run_dirs := [Dir [File], Dir [Dir [File]]]\<rparr>)
     = segfile (sample_state\<lparr>run_dirs := merged_dirs\<rparr>)"
proof -
  have run: "main default_args ligo_config
     (sample_env\<lparr>state_segs := Some [], frame_cache_segs := Some [(998, 1500)]\<rparr>)
     (sample_state\<lparr>run_dirs := merged_dirs\<rparr>)
     = Some (CleanFailed RetryLater OSError,
             sample_state\<lparr>run_dirs := [Dir [File], Dir [Dir [File]]]\<rparr>)"
    by (simp add: run_defs merged_dirs_def)
  from watermark_untouched_without_submission[OF run] run show ?thesis by simp
qed

text \<open>
  Claim C1 as it was stated fails: a \<open>--no-submit\<close> run on a new DAG submits nothing
  and replaces the stored segment \<open>[0, 1000)\<close> by the trigger span.
\<close>

theorem no_submit_writes_watermark:
  "main (default_args\<lparr>no_submit := True\<rparr>) ligo_config sample_env sample_state =
     Some (Exited NoSubmit 0, sample_state\<lparr>segfile := Some [(1000, 1498)]\<rparr>) \<and>
   submitted (sample_state\<lparr>segfile := Some [(1000, 1498)]\<rparr>) = submitted sample_state \<and>
   segfile (sample_state\<lparr>segfile := Some [(1000, 1498)]\<rparr>) \<noteq> segfile sample_state"
  by (simp add: run_defs)

subsection \<open>Catching up without analysable segments\<close>

text \<open>
  Claim C2 does not hold of the code.  Online, on a new DAG, with the span
  \<open>[998, 2002)\<close>, no state segment and frames for \<open>[1500, 2002)\<close> only, the data do not
  cover the span, yet \<open>alldata\<close> holds, because line 908 looks at the end of the last
  available segment only, and the run writes \<open>segments.txt\<close> and leaves through the
  "caught up" exit.
\<close>

theorem catch_up_with_gap_in_data:
  "find_run_segment default_args ligo_config
     (sample_env\<lparr>state_segs := Some [], frame_cache_segs := Some [(1500, 2002)]\<rparr>) sample_state
     = Inr (1000, 2000) \<and>
   datastart_of ligo_config (1000, 2000) = 998 \<and> dataend_of ligo_config (1000, 2000) = 2002 \<and>
   available_data
     (sample_env\<lparr>state_segs := Some [], frame_cache_segs := Some [(1500, 2002)]\<rparr>) 998 2002
     = ([(1500, 2002)], True) \<and>
   main default_args ligo_config
     (sample_env\<lparr>state_segs := Some [], frame_cache_segs := Some [(1500, 2002)]\<rparr>) sample_state =
     Some (Exited CaughtUp 0,
           sample_state\<lparr>segfile := Some [(1500, 2002)], run_dirs := []\<rparr>)"
  by (simp add: run_defs)

subsection \<open>The rescue loop\<close>

lemma submit_loop_step:
  assumes "\<not> reattach a" and "submit_dag ev i = Some dagid"
    and "condor_watch_q ev i = None \<or> condor_watch_q ev i = Some 0"
    and "dag_status ev i = Some c" and "c \<noteq> 0" and "int i \<noteq> submit_rescue_dag a"
    and "find_rescue_dag ev i = Some rescue_dag"
  shows "\<exists>st1. submit_loop a ev span (i # rest) st = submit_loop a ev span rest st1 \<and>
           submitted st1 = Suc (submitted st) \<and> reattached st1 = reattached st"
  using assms
  by (intro exI[of _ "if i = 0 then write_segments span (st\<lparr>submitted := Suc (submitted st)\<rparr>)
                      else st\<lparr>submitted := Suc (submitted st)\<rparr>"])
     (auto simp: Let_def write_segments_def)

lemma submit_loop_all_fail:
  assumes "\<not> reattach a" and "int n = submit_rescue_dag a"
    and "\<forall>i \<le> n. submit_dag ev i \<noteq> None"
    and "\<forall>i \<le> n. condor_watch_q ev i = None \<or> condor_watch_q ev i = Some 0"
    and "\<forall>i \<le> n. \<exists>c. c \<noteq> 0 \<and> dag_status ev i = Some c"
    and "\<forall>i < n. find_rescue_dag ev i \<noteq> None"
  shows "j \<le> n \<Longrightarrow>
         fst (submit_loop a ev span [j..<Suc n] st) = DagFailed (submit_rescue_dag a + 1) \<and>
         submitted (snd (submit_loop a ev span [j..<Suc n] st)) = submitted st + (Suc n - j) \<and>
         reattached (snd (submit_loop a ev span [j..<Suc n] st)) = reattached st"
proof (induction "n - j" arbitrary: j st)
  case 0
  then have j: "j = n" by simp
  from assms(3) obtain dagid where d: "submit_dag ev n = Some dagid" by auto
  from assms(4) have w: "condor_watch_q ev n = None \<or> condor_watch_q ev n = Some 0" by simp
  from assms(5) obtain c where c: "c \<noteq> 0" "dag_status ev n = Some c" by auto
  have "[n..<Suc n] = [n]" by simp
  with j d w c assms(1,2) show ?case
    by (auto simp: Let_def write_segments_def simp del: upt_Suc)
next
  case (Suc m)
  then have j: "j < n" by simp
  from assms(3) j obtain dagid where d: "submit_dag ev j = Some dagid"
    by (metis less_imp_le_nat not_None_eq)
  from assms(4) j have w: "condor_watch_q ev j = None \<or> condor_watch_q ev j = Some 0" by simp
  from assms(5) j obtain c where c: "c \<noteq> 0" "dag_status ev j = Some c"
    by (metis less_imp_le_nat)
  from assms(6) j obtain rescue_dag where r: "find_rescue_dag ev j = Some rescue_dag" by auto
  have l: "[j..<Suc n] = j # [Suc j..<Suc n]" using j by (simp add: upt_conv_Cons)
  have ne: "int j \<noteq> submit_rescue_dag a" using j assms(2) by simp
  have m: "m = n - Suc j" and sj: "Suc j \<le> n" using Suc(2) j by simp_all
  from submit_loop_step[OF assms(1) d w c(2,1) ne r, of span "[Suc j..<Suc n]" st] obtain st1 where
    st1: "submit_loop a ev span (j # [Suc j..<Suc n]) st = submit_loop a ev span [Suc j..<Suc n] st1"
      "submitted st1 = Suc (submitted st)"
      "reattached st1 = reattached st"
    by blast
  from Suc(1)[OF m sj, of st1] st1 sj show ?case
    by (simp only: l) (simp del: upt_Suc)
qed

lemma submit_loop_success:
  assumes "\<not> reattach a" and "k \<le> n" and "int n = submit_rescue_dag a"
    and "\<forall>i \<le> k. submit_dag ev i \<noteq> None"
    and "\<forall>i \<le> k. condor_watch_q ev i = None \<or> condor_watch_q ev i = Some 0"
    and "\<forall>i < k. \<exists>c. c \<noteq> 0 \<and> dag_status ev i = Some c"
    and "\<forall>i < k. find_rescue_dag ev i \<noteq> None"
    and "dag_status ev k = Some 0"
  shows "j \<le> k \<Longrightarrow>
         fst (submit_loop a ev span [j..<Suc n] st) = Completed \<and>
         submitted (snd (submit_loop a ev span [j..<Suc n] st)) = submitted st + (Suc k - j) \<and>
         reattached (snd (submit_loop a ev span [j..<Suc n] st)) = reattached st"
proof (induction "k - j" arbitrary: j st)
  case 0
  then have j: "j = k" by simp
  from assms(4) obtain dagid where d: "submit_dag ev k = Some dagid" by auto
  from assms(5) have w: "condor_watch_q ev k = None \<or> condor_watch_q ev k = Some 0" by simp
  have l: "[k..<Suc n] = k # [Suc k..<Suc n]" using assms(2) by (simp add: upt_conv_Cons)
  from j d w assms(1,8) show ?case
    by (simp only: l) (auto simp: Let_def write_segments_def simp del: upt_Suc)
next
  case (Suc m)
  then have j: "j < k" by simp
  from assms(4) j obtain dagid where d: "submit_dag ev j = Some dagid"
    by (metis less_imp_le_nat not_None_eq)
  from assms(5) j have w: "condor_watch_q ev j = None \<or> condor_watch_q ev j = Some 0" by simp
  from assms(6) j obtain c where c: "c \<noteq> 0" "dag_status ev j = Some c" by blast
  from assms(7) j obtain rescue_dag where r: "find_rescue_dag ev j = Some rescue_dag" by auto
  have l: "[j..<Suc n] = j # [Suc j..<Suc n]" using j assms(2) by (simp add: upt_conv_Cons)
  have ne: "int j \<noteq> submit_rescue_dag a" using j assms(2,3) by simp
  have m: "m = k - Suc j" and sj: "Suc j \<le> k" using Suc(2) j by simp_all
  from submit_loop_step[OF assms(1) d w c(2,1) ne r, of span "[Suc j..<Suc n]" st] obtain st1 where
    st1: "submit_loop a ev span (j # [Suc j..<Suc n]) st = submit_loop a ev span [Suc j..<Suc n] st1"
      "submitted st1 = Suc (submitted st)"
      "reattached st1 = reattached st"
    by blast
  from Suc(1)[OF m sj, of st1] st1 sj show ?case
    by (simp only: l) (simp del: upt_Suc)
qed

text \<open>
  Claim C7, as amended.  For a run that does not reattach, with a rescue budget
  \<open>N \<ge> 0\<close>: if every submission is accepted, every DAG is watched to its end and ends
  with a non-zero exit code, and the rescue DAG is found after each failure but the
  last, the run makes exactly \<open>N + 1\<close> submissions and then ends with the error reporting
  \<open>N + 1\<close> failures.  If instead the first \<open>k \<le> N\<close> DAGs fail and the next one ends with
  exit code zero, the run completes after exactly \<open>k + 1\<close> submissions.
\<close>

theorem rescue_loop_attempts:
  assumes "\<not> reattach a" and "0 \<le> submit_rescue_dag a"
    and "programs_found ev" and "\<not> no_submit a"
  shows "((\<forall>i \<le> nat (submit_rescue_dag a).
              submit_dag ev i \<noteq> None \<and>
              (condor_watch_q ev i = None \<or> condor_watch_q ev i = Some 0) \<and>
              (\<exists>c. c \<noteq> 0 \<and> dag_status ev i = Some c)) \<and>
          (\<forall>i < nat (submit_rescue_dag a). find_rescue_dag ev i \<noteq> None) \<longrightarrow>
            fst (submit_stage a ev span st) = DagFailed (submit_rescue_dag a + 1) \<and>
            submitted (snd (submit_stage a ev span st)) =
              submitted st + nat (submit_rescue_dag a) + 1) \<and>
         (\<forall>k \<le> nat (submit_rescue_dag a).
            (\<forall>i \<le> k. submit_dag ev i \<noteq> None \<and>
                      (condor_watch_q ev i = None \<or> condor_watch_q ev i = Some 0)) \<and>
            (\<forall>i < k. (\<exists>c. c \<noteq> 0 \<and> dag_status ev i = Some c) \<and>
                      find_rescue_dag ev i \<noteq> None) \<and>
            dag_status ev k = Some 0 \<longrightarrow>
            fst (submit_stage a ev span st) = Completed \<and>
            submitted (snd (submit_stage a ev span st)) = submitted st + k + 1)"
proof -
  let ?n = "nat (submit_rescue_dag a)"
  have n: "int ?n = submit_rescue_dag a" using assms(2) by simp
  have r: "nat (submit_rescue_dag a + 1) = Suc ?n" using assms(2) by simp
  have stage: "submit_stage a ev span st = submit_loop a ev span [0..<Suc ?n] st"
    using assms(2,3,4) r by (simp add: submit_stage_def)
  have fail: "(\<forall>i \<le> ?n.
              submit_dag ev i \<noteq> None \<and>
              (condor_watch_q ev i = None \<or> condor_watch_q ev i = Some 0) \<and>
              (\<exists>c. c \<noteq> 0 \<and> dag_status ev i = Some c)) \<and>
          (\<forall>i < ?n. find_rescue_dag ev i \<noteq> None) \<longrightarrow>
            fst (submit_stage a ev span st) = DagFailed (submit_rescue_dag a + 1) \<and>
            submitted (snd (submit_stage a ev span st)) = submitted st + ?n + 1"
  proof
    assume h: "(\<forall>i \<le> ?n.
              submit_dag ev i \<noteq> None \<and>
              (condor_watch_q ev i = None \<or> condor_watch_q ev i = Some 0) \<and>
              (\<exists>c. c \<noteq> 0 \<and> dag_status ev i = Some c)) \<and>
          (\<forall>i < ?n. find_rescue_dag ev i \<noteq> None)"
    then have h1: "\<forall>i \<le> ?n. submit_dag ev i \<noteq> None"
      and h2: "\<forall>i \<le> ?n. condor_watch_q ev i = None \<or> condor_watch_q ev i = Some 0"
      and h3: "\<forall>i \<le> ?n. \<exists>c. c \<noteq> 0 \<and> dag_status ev i = Some c"
      and h4: "\<forall>i < ?n. find_rescue_dag ev i \<noteq> None"
      by blast+
    from submit_loop_all_fail[OF assms(1) n h1 h2 h3 h4, of 0 span st] stage
    show "fst (submit_stage a ev span st) = DagFailed (submit_rescue_dag a + 1) \<and>
            submitted (snd (submit_stage a ev span st)) = submitted st + ?n + 1"
      by simp
  qed
  have ok: "\<forall>k \<le> ?n.
            (\<forall>i \<le> k. submit_dag ev i \<noteq> None \<and>
                      (condor_watch_q ev i = None \<or> condor_watch_q ev i = Some 0)) \<and>
            (\<forall>i < k. (\<exists>c. c \<noteq> 0 \<and> dag_status ev i = Some c) \<and>
                      find_rescue_dag ev i \<noteq> None) \<and>
            dag_status ev k = Some 0 \<longrightarrow>
            fst (submit_stage a ev span st) = Completed \<and>
            submitted (snd (submit_stage a ev span st)) = submitted st + k + 1"
  proof (intro allI impI)
    fix k assume k: "k \<le> ?n"
      and h: "(\<forall>i \<le> k. submit_dag ev i \<noteq> None \<and>
                      (condor_watch_q ev i = None \<or> condor_watch_q ev i = Some 0)) \<and>
            (\<forall>i < k. (\<exists>c. c \<noteq> 0 \<and> dag_status ev i = Some c) \<and>
                      find_rescue_dag ev i \<noteq> None) \<and>
            dag_status ev k = Some 0"
    then have h1: "\<forall>i \<le> k. submit_dag ev i \<noteq> None"
      and h2: "\<forall>i \<le> k. condor_watch_q ev i = None \<or> condor_watch_q ev i = Some 0"
      and h3: "\<forall>i < k. \<exists>c. c \<noteq> 0 \<and> dag_status ev i = Some c"
      and h4: "\<forall>i < k. find_rescue_dag ev i \<noteq> None"
      and h5: "dag_status ev k = Some 0"
      by blast+
    from submit_loop_success[OF assms(1) k n h1 h2 h3 h4 h5, of 0 span st] stage
    show "fst (submit_stage a ev span st) = Completed \<and>
            submitted (snd (submit_stage a ev span st)) = submitted st + k + 1"
      by simp
  qed
  from fail ok show ?thesis by blast
qed

theorem rescue_loop_attempts_witness:
  "fst (submit_stage (default_args\<lparr>submit_rescue_dag := 2\<rparr>) sample_env [(1000, 1498)] sample_state)
     = DagFailed 3 \<and>
   submitted (snd (submit_stage (default_args\<lparr>submit_rescue_dag := 2\<rparr>) sample_env
     [(1000, 1498)] sample_state)) = 3 \<and>
   fst (submit_stage (default_args\<lparr>submit_rescue_dag := 2\<rparr>)
     (sample_env\<lparr>dag_status := (\<lambda>i. if i = 0 then Some 1 else Some 0)\<rparr>) [(1000, 1498)] sample_state)
     = Completed \<and>
   submitted (snd (submit_stage (default_args\<lparr>submit_rescue_dag := 2\<rparr>)
     (sample_env\<lparr>dag_status := (\<lambda>i. if i = 0 then Some 1 else Some 0)\<rparr>) [(1000, 1498)] sample_state))
     = 2"
proof -
  let ?a = "default_args\<lparr>submit_rescue_dag := 2\<rparr>"
  let ?ev = "sample_env\<lparr>dag_status := (\<lambda>i. if i = 0 then Some 1 else Some 0)\<rparr>"
  have h0: "\<not> reattach ?a" by (simp add: default_args_def)
  have h1: "0 \<le> submit_rescue_dag ?a" by (simp add: default_args_def)
  have h2: "programs_found sample_env" "programs_found ?ev" by (simp_all add: sample_env_def)
  have h3: "\<not> no_submit ?a" by (simp add: default_args_def)
  have r: "submitted sample_state = 0" "submit_rescue_dag ?a = 2"
    by (simp_all add: default_args_def sample_state_def)
  have f: "(\<forall>i \<le> nat (submit_rescue_dag ?a).
              submit_dag sample_env i \<noteq> None \<and>
              (condor_watch_q sample_env i = None \<or> condor_watch_q sample_env i = Some 0) \<and>
              (\<exists>c. c \<noteq> 0 \<and> dag_status sample_env i = Some c)) \<and>
          (\<forall>i < nat (submit_rescue_dag ?a). find_rescue_dag sample_env i \<noteq> None)"
    by (simp add: sample_env_def)
  from rescue_loop_attempts[OF h0 h1 h2(1) h3, of "[(1000, 1498)]" sample_state] f
  have "fst (submit_stage ?a sample_env [(1000, 1498)] sample_state)
          = DagFailed (submit_rescue_dag ?a + 1) \<and>
        submitted (snd (submit_stage ?a sample_env [(1000, 1498)] sample_state))
          = submitted sample_state + nat (submit_rescue_dag ?a) + 1"
    by blast
  with r have a: "fst (submit_stage ?a sample_env [(1000, 1498)] sample_state) = DagFailed 3"
    "submitted (snd (submit_stage ?a sample_env [(1000, 1498)] sample_state)) = 3"
    by simp_all
  have s: "(\<forall>i \<le> 1. submit_dag ?ev i \<noteq> None \<and>
                      (condor_watch_q ?ev i = None \<or> condor_watch_q ?ev i = Some 0)) \<and>
            (\<forall>i < 1. (\<exists>c. c \<noteq> 0 \<and> dag_status ?ev i = Some c) \<and>
                      find_rescue_dag ?ev i \<noteq> None) \<and>
            dag_status ?ev 1 = Some 0"
    by (simp add: sample_env_def)
  have k: "(1::nat) \<le> nat (submit_rescue_dag ?a)" by (simp add: default_args_def)
  from rescue_loop_attempts[OF h0 h1 h2(2) h3, of "[(1000, 1498)]" sample_state]
  have "\<forall>k \<le> nat (submit_rescue_dag ?a).
            (\<forall>i \<le> k. submit_dag ?ev i \<noteq> None \<and>
                      (condor_watch_q ?ev i = None \<or> condor_watch_q ?ev i = Some 0)) \<and>
            (\<forall>i < k. (\<exists>c. c \<noteq> 0 \<and> dag_status ?ev i = Some c) \<and>
                      find_rescue_dag ?ev i \<noteq> None) \<and>
            dag_status ?ev k = Some 0 \<longrightarrow>
            fst (submit_stage ?a ?ev [(1000, 1498)] sample_state) = Completed \<and>
            submitted (snd (submit_stage ?a ?ev [(1000, 1498)] sample_state))
              = submitted sample_state + k + 1"
    by blast
  from this[rule_format, OF k s] r
  have b: "fst (submit_stage ?a ?ev [(1000, 1498)] sample_state) = Completed"
    "submitted (snd (submit_stage ?a ?ev [(1000, 1498)] sample_state)) = 2"
    by simp_all
  from a b show ?thesis by blast
qed

text \<open>
  Claim C7 as it was stated fails for a run that reattaches to a running DAG: with the
  default budget of zero and a failing DAG the run ends with the error reporting one
  failure, having looked the DAG up and submitted nothing.
\<close>

theorem reattach_makes_no_submission:
  "fst (submit_stage (default_args\<lparr>reattach := True\<rparr>) sample_env [(1000, 1498)] sample_state)
     = DagFailed 1 \<and>
   submitted (snd (submit_stage (default_args\<lparr>reattach := True\<rparr>) sample_env
     [(1000, 1498)] sample_state)) = 0 \<and>
   reattached (snd (submit_stage (default_args\<lparr>reattach := True\<rparr>) sample_env
     [(1000, 1498)] sample_state)) = 1"
  by (simp add: run_defs)

subsection \<open>The minimum duration of the span\<close>

text \<open>
  Claim C8 does not hold of the code.  An online run whose padded span of 52 seconds is
  shorter than one chunk, started where an earlier run left a channel directory with a
  file under \<open>merge\<close>, does not exit with status 0: \<open>remove_empty_dir\<close> keeps \<open>ret = True\<close>
  for a directory that holds only files and calls \<open>rmdir\<close> on it, so \<open>clean_dirs\<close> at
  line 770 ends in \<open>OSError\<close>.  With empty run directories the same run exits with
  status 0.
\<close>

theorem too_short_exit_raises_on_kept_files:
  "find_run_segment default_args ligo_config (sample_env\<lparr>latest_data_gps := 1050\<rparr>)
     (sample_state\<lparr>run_dirs := merged_dirs\<rparr>) = Inr (1000, 1048) \<and>
   dataduration_of ligo_config (1000, 1048) = 52 \<and>
   remove_empty_dir (Dir [File]) = (Inl OSError, [Dir [File]]) \<and>
   main default_args ligo_config (sample_env\<lparr>latest_data_gps := 1050\<rparr>)
     (sample_state\<lparr>run_dirs := merged_dirs\<rparr>) =
     Some (CleanFailed TooShort OSError,
           sample_state\<lparr>run_dirs := [Dir [File], Dir [Dir [File]]]\<rparr>) \<and>
   main default_args ligo_config (sample_env\<lparr>latest_data_gps := 1050\<rparr>) sample_state =
     Some (Exited TooShort 0, sample_state\<lparr>run_dirs := []\<rparr>)"
  by (simp add: run_defs merged_dirs_def)

subsection \<open>Segments across a metric day\<close>

text \<open>
  Claim C4 does not hold of the code.  For the segment \<open>[99990, 100100)\<close>, which
  crosses GPS 100000, the loop of lines 926--936 builds \<open>seg_tmp\<close> from the day number 1
  instead of the boundary 100000, and line 938 filters \<open>segs\<close>, so that the segment
  reaches job partitioning in one piece.
\<close>

theorem metric_day_split_discarded:
  "split_metric_days [(99990, 100100)] = [(1, 99990), (1, 100100)] \<and>
   analysable_segments ligo_config [(99990, 100100)] [(99990, 100100)] = [(99990, 100100)]"
  by code_simp

subsection \<open>The merge flag of the post-processing script\<close>

text \<open>
  Claim C5 does not hold of the code.  The HDF5 command is built from
  \<open>args.skip_root_merge\<close>: with \<open>--skip-hdf5-merge\<close> alone it carries no
  \<open>--no-merge\<close>, and with \<open>--skip-root-merge\<close> alone it does.
\<close>

theorem hdf5_merge_follows_root_option:
  "channel_operations (default_args\<lparr>skip_hdf5_merge := True\<rparr>) [''hdf5'']
     ''omicron-merge-with-gaps'' ''merge'' sample_files ''H1:A'' =
     Inr [[newline] @ ''# H1:A'',
          ''  omicron-merge-with-gaps    --out-dir merge/H1:A a.h5 b.h5 ''] \<and>
   \<not> carries_flag ''--no-merge''
        (''  omicron-merge-with-gaps    --out-dir merge/H1:A a.h5 b.h5 '') \<and>
   channel_operations (default_args\<lparr>skip_root_merge := True\<rparr>) [''hdf5'']
     ''omicron-merge-with-gaps'' ''merge'' sample_files ''H1:A'' =
     Inr [[newline] @ ''# H1:A'',
          ''  omicron-merge-with-gaps --no-merge   --out-dir merge/H1:A a.h5 b.h5 ''] \<and>
   carries_flag ''--no-merge''
        (''  omicron-merge-with-gaps --no-merge   --out-dir merge/H1:A a.h5 b.h5 '')"
  by code_simp

end
